theory Spec2Isabelle
  imports Main "HOL-Library.Word"
begin

unbundle bit_operations_syntax

section \<open>Common data: bytes, errors, file reads\<close>

text \<open>
  A Python \<open>bytes\<close> or \<open>bytearray\<close> value is a list of 8-bit words. Python integers are
  unbounded; the cursors and lengths of the tools are natural numbers wherever the source
  cannot make them negative, and \<open>int\<close> where it can (the decoder's \<open>remaining\<close>).
\<close>

type_synonym byte = "8 word"

datatype error =
    IndexError          \<comment> \<open>\<open>f.read(1)[0]\<close> at end of file, \<open>data[0]\<close> on empty data\<close>
  | ZeroDivisionError   \<comment> \<open>\<open>i % len(key)\<close> with an empty key\<close>
  | InvalidOffset       \<comment> \<open>\<open>ValueError("Invalid offset value")\<close>\<close>
  | ByteRangeError      \<comment> \<open>\<open>bytearray.append\<close> or \<open>bytes([...])\<close> of a value outside 0..255\<close>
  | StructError         \<comment> \<open>\<open>struct.pack\<close> out of range, \<open>struct.unpack\<close> on a short buffer\<close>
  | BadMagic            \<comment> \<open>\<open>ValueError("Not a valid PRS file")\<close>\<close>
  | UnsupportedBpp      \<comment> \<open>\<open>ValueError("Unsupported BPP value")\<close>\<close>
  | UnicodeEncodeError  \<comment> \<open>\<open>str.encode\<close> of a string the codec cannot encode\<close>
  | IsADirectoryError   \<comment> \<open>\<open>open(path, 'wb')\<close> where the path is a directory\<close>
  | OSError             \<comment> \<open>any other failure of \<open>open(path, 'wb')\<close>\<close>

text \<open>Evaluating a generator or a \<open>for\<close> loop whose body may raise: the first error wins.\<close>

fun collect :: "('a \<Rightarrow> error + 'b) \<Rightarrow> 'a list \<Rightarrow> error + 'b list" where
  "collect f [] = Inr []"
| "collect f (x # xs) =
     (case f x of
        Inl e \<Rightarrow> Inl e
      | Inr y \<Rightarrow> (case collect f xs of Inl e \<Rightarrow> Inl e | Inr ys \<Rightarrow> Inr (y # ys)))"

section \<open>The XOR cipher (ExMgData.py, PkMgData.py)\<close>

text \<open>
  \<^verbatim>\<open>bytes(data[i] ^ key[i % len(key)] for i in range(len(data)))\<close>:
  \<open>i % len(key)\<close> raises when the key is empty, at the first index evaluated.
\<close>

definition xor_at :: "byte list \<Rightarrow> byte list \<Rightarrow> nat \<Rightarrow> error + byte" where
  "xor_at data key i =
     (if length key = 0 then Inl ZeroDivisionError
      else Inr ((data ! i) XOR (key ! (i mod length key))))"

definition xor_decrypt :: "byte list \<Rightarrow> byte list \<Rightarrow> error + byte list" where
  "xor_decrypt data key = collect (xor_at data key) [0..<length data]"

definition xor_encrypt :: "byte list \<Rightarrow> byte list \<Rightarrow> error + byte list" where
  "xor_encrypt data key = collect (xor_at data key) [0..<length data]"

section \<open>The PRS decoder (PRS_IMAGE_CONVERTER.py, prs2bmp.py)\<close>

text \<open>
  \<open>PrsMetaData\<close>, and the reader object built from it. Both files carry the same
  \<open>PrsReader\<close>; the line numbers below are those of PRS_IMAGE_CONVERTER.py.
\<close>

record PrsMetaData =
  width :: nat
  height :: nat
  bpp :: nat
  flag :: nat
  packed_size :: nat

datatype pixel_format = RGB | RGBA

text \<open>\<open>struct.unpack_from\<close> of little-endian fields; a buffer too short raises.\<close>

definition unpack_H :: "byte list \<Rightarrow> nat \<Rightarrow> error + nat" where
  "unpack_H buf off =
     (if length buf < off + 2 then Inl StructError
      else Inr (unat (buf ! off) + 256 * unat (buf ! (off + 1))))"

definition unpack_I :: "byte list \<Rightarrow> nat \<Rightarrow> error + nat" where
  "unpack_I buf off =
     (if length buf < off + 4 then Inl StructError
      else Inr (unat (buf ! off) + 256 * unat (buf ! (off + 1))
                + 65536 * unat (buf ! (off + 2)) + 16777216 * unat (buf ! (off + 3))))"

text \<open>
  \<open>read_prs_meta_data\<close> (lines 259-270). \<open>header[:2]\<close> is a slice and never raises;
  \<open>header[3]\<close> raises on a header shorter than four bytes.
\<close>

definition read_prs_meta_data :: "byte list \<Rightarrow> error + PrsMetaData" where
  "read_prs_meta_data fbytes =
     (let header = take 16 fbytes in
      if take 2 header \<noteq> [0x59, 0x42] then Inl BadMagic
      else if length header \<le> 3 then Inl IndexError
      else let bpp_byte = unat (header ! 3) in
        if bpp_byte \<noteq> 3 \<and> bpp_byte \<noteq> 4 then Inl UnsupportedBpp
        else (case unpack_H header 12 of Inl e \<Rightarrow> Inl e | Inr w \<Rightarrow>
             (case unpack_H header 14 of Inl e \<Rightarrow> Inl e | Inr h \<Rightarrow>
             (case unpack_I header 4 of Inl e \<Rightarrow> Inl e | Inr ps \<Rightarrow>
                Inr \<lparr>width = w, height = h, bpp = bpp_byte * 8,
                     flag = unat (header ! 2), packed_size = ps\<rparr>))))"

text \<open>
  The state of the loop of \<open>unpack\<close> (lines 157-221): the file from the read position
  on, the locals \<open>remaining\<close>, \<open>dst\<close>, \<open>bit\<close>, \<open>ctl\<close>, and the buffer \<open>self.output\<close>.
\<close>

record decode_state =
  stream :: "byte list"
  remaining :: int
  dst :: nat
  bit_r :: nat
  ctl :: nat
  outbuf :: "byte list"

text \<open>\<open>f.read(1)[0]\<close>: at end of file \<open>read\<close> returns \<open>b''\<close> and the index raises.\<close>

definition read_byte :: "byte list \<Rightarrow> error + (nat \<times> byte list)" where
  "read_byte fl = (case fl of [] \<Rightarrow> Inl IndexError | b # rest \<Rightarrow> Inr (unat b, rest))"

definition length_table :: "nat list" where
  "length_table = map (\<lambda>i. i + 3) [0..<0xfe] @ [0x400, 0x1000]"

text \<open>
  Lines 166-170: the bit mask moves one place to the right; when it is used up the next
  byte of the file is the control byte and the mask restarts at \<open>0x80\<close>.
\<close>

definition advance_bit :: "decode_state \<Rightarrow> error + decode_state" where
  "advance_bit s =
     (let b = drop_bit 1 (bit_r s) in
      if b = 0 then
        (case read_byte (stream s) of
           Inl e \<Rightarrow> Inl e
         | Inr (c, rest) \<Rightarrow>
             Inr (s\<lparr>stream := rest, ctl := c, remaining := remaining s - 1, bit_r := 0x80\<rparr>))
      else Inr (s\<lparr>bit_r := b\<rparr>))"

text \<open>
  What one pass through lines 166-213 ends in: \<open>break\<close>, \<open>continue\<close> (a literal or a
  raw run has been stored), or falling through to line 215 with \<open>shift\<close> and \<open>length\<close>.
\<close>

datatype action =
    Stop decode_state
  | Next decode_state
  | Copy decode_state nat nat

text \<open>
  Lines 175-179, the control bit is clear: one byte of the file is stored at \<open>dst\<close>.
  The right-hand side is read first; the store raises when \<open>dst\<close> is outside the buffer.
\<close>

definition literal :: "decode_state \<Rightarrow> error + action" where
  "literal s =
     (case read_byte (stream s) of
        Inl e \<Rightarrow> Inl e
      | Inr (v, rest) \<Rightarrow>
          if dst s < length (outbuf s) then
            Inr (Next (s\<lparr>stream := rest, outbuf := (outbuf s)[dst s := of_nat v],
                         dst := dst s + 1, remaining := remaining s - 1\<rparr>))
          else Inl IndexError)"

text \<open>
  Lines 206-211, the raw run: \<open>f.read(length)\<close> returns at most \<open>length\<close> bytes, and the
  slice assignment \<open>output[dst:dst + length] = read_data\<close> replaces the slice (cut at the
  end of the buffer) by all of \<open>read_data\<close>.
\<close>

definition raw_run :: "decode_state \<Rightarrow> nat \<Rightarrow> decode_state" where
  "raw_run s len =
     (let read_data = take len (stream s) in
      s\<lparr>stream := drop len (stream s),
        outbuf := take (dst s) (outbuf s) @ read_data @ drop (dst s + len) (outbuf s),
        dst := dst s + length read_data,
        remaining := remaining s - int (length read_data)\<rparr>)"

text \<open>Lines 181-213, the control bit is set.\<close>

definition match_token :: "decode_state \<Rightarrow> error + action" where
  "match_token s =
     (case read_byte (stream s) of
        Inl e \<Rightarrow> Inl e
      | Inr (b, rest) \<Rightarrow>
          let s1 = s\<lparr>stream := rest, remaining := remaining s - 1\<rparr> in
          if b AND 0x80 \<noteq> 0 then
            if remaining s1 \<le> 0 then Inr (Stop s1)
            else
              (case read_byte (stream s1) of
                 Inl e \<Rightarrow> Inl e
               | Inr (b2, rest2) \<Rightarrow>
                   let s2 = s1\<lparr>stream := rest2, remaining := remaining s1 - 1\<rparr>;
                       shift = b2 OR push_bit 8 (b AND 0x3f)
                   in
                   if b AND 0x40 \<noteq> 0 then
                     if remaining s2 \<le> 0 then Inr (Stop s2)
                     else
                       (case read_byte (stream s2) of
                          Inl e \<Rightarrow> Inl e
                        | Inr (offset, rest3) \<Rightarrow>
                            Inr (Copy (s2\<lparr>stream := rest3, remaining := remaining s2 - 1\<rparr>)
                                   shift (length_table ! offset)))
                   else Inr (Copy s2 (drop_bit 4 shift) ((shift AND 0xf) + 3)))
          else
            let len = drop_bit 2 b; mode = b AND 3 in
            if mode = 3 then Inr (Next (raw_run s1 (len + 9)))
            else Inr (Copy s1 len (mode + 2)))"

text \<open>Lines 166-213 together.\<close>

definition decode_token :: "decode_state \<Rightarrow> error + action" where
  "decode_token s =
     (case advance_bit s of
        Inl e \<Rightarrow> Inl e
      | Inr s1 \<Rightarrow>
          if remaining s1 \<le> 0 then Inr (Stop s1)
          else if ctl s1 AND bit_r s1 = 0 then literal s1
          else match_token s1)"

text \<open>
  Lines 215-221, the back-reference copy. \<open>min\<close> and \<open>dst += length\<close> are integer
  operations in the source; the copy runs byte by byte over the buffer it writes.
\<close>

definition copy_match :: "decode_state \<Rightarrow> nat \<Rightarrow> nat \<Rightarrow> error + decode_state" where
  "copy_match s shift0 len0 =
     (let shift = shift0 + 1 in
      if dst s < shift then Inl InvalidOffset
      else
        let len = min (int len0) (int (length (outbuf s)) - int (dst s));
            out = fold (\<lambda>i out. out[dst s + i := out ! (dst s - shift + i)])
                       [0..<nat len] (outbuf s)
        in Inr (s\<lparr>outbuf := out, dst := nat (int (dst s) + len)\<rparr>))"

text \<open>
  The loop of lines 165-221. Every pass that does not leave the loop reads at least one
  byte of the file, which is what makes the loop end.
\<close>

fun action_state :: "action \<Rightarrow> decode_state" where
  "action_state (Stop s) = s"
| "action_state (Next s) = s"
| "action_state (Copy s shift len) = s"

lemma advance_bit_stream:
  "advance_bit s = Inr s1 \<Longrightarrow> length (stream s1) \<le> length (stream s)"
  by (auto simp: advance_bit_def read_byte_def Let_def split: if_splits list.splits)

lemma literal_stream:
  "literal s = Inr a \<Longrightarrow> length (stream (action_state a)) < length (stream s)"
  by (auto simp: literal_def read_byte_def split: if_splits list.splits)

lemma match_token_stream:
  "match_token s = Inr a \<Longrightarrow> length (stream (action_state a)) < length (stream s)"
  unfolding match_token_def read_byte_def Let_def
  by (cases "stream s") (auto simp: raw_run_def Let_def split: if_splits list.splits)

lemma decode_token_stream:
  assumes "decode_token s = Inr a" and "\<forall>s1. a \<noteq> Stop s1"
  shows "length (stream (action_state a)) < length (stream s)"
proof (cases "advance_bit s")
  case (Inl e)
  with assms show ?thesis by (simp add: decode_token_def)
next
  case (Inr s1)
  from assms Inr have "literal s1 = Inr a \<or> match_token s1 = Inr a"
    by (auto simp: decode_token_def split: if_splits)
  then have "length (stream (action_state a)) < length (stream s1)"
    by (auto dest: literal_stream match_token_stream)
  with advance_bit_stream [OF Inr] show ?thesis by simp
qed

lemma copy_match_stream: "copy_match s shift len = Inr s2 \<Longrightarrow> stream s2 = stream s"
  by (auto simp: copy_match_def Let_def split: if_splits)

function unpack_loop :: "decode_state \<Rightarrow> error + decode_state" where
  "unpack_loop s =
     (if remaining s > 0 \<and> dst s < length (outbuf s) then
        (case decode_token s of
           Inl e \<Rightarrow> Inl e
         | Inr (Stop s1) \<Rightarrow> Inr s1
         | Inr (Next s1) \<Rightarrow> unpack_loop s1
         | Inr (Copy s1 shift len) \<Rightarrow>
             (case copy_match s1 shift len of
                Inl e \<Rightarrow> Inl e
              | Inr s2 \<Rightarrow> unpack_loop s2))
      else Inr s)"
  by pat_completeness auto
termination
proof (relation "measure (\<lambda>s. length (stream s))")
  show "wf (measure (\<lambda>s. length (stream s)))" by simp
next
  fix s :: decode_state and x s1
  assume "decode_token s = Inr x" "x = Next s1"
  then show "(s1, s) \<in> measure (\<lambda>s. length (stream s))"
    using decode_token_stream [of s x] by simp
next
  fix s :: decode_state and x s1 shift len s2
  assume "decode_token s = Inr x" "x = Copy s1 shift len" "copy_match s1 shift len = Inr s2"
  then show "(s2, s) \<in> measure (\<lambda>s. length (stream s))"
    using decode_token_stream [of s x] copy_match_stream [of s1 shift len s2] by simp
qed

text \<open>Lines 223-225, the inverse delta filter, in place and upwards.\<close>

definition delta_decode :: "nat \<Rightarrow> byte list \<Rightarrow> byte list" where
  "delta_decode depth buf =
     fold (\<lambda>i out. out[i := out ! i + out ! (i - depth)]) [depth..<length buf] buf"

text \<open>
  \<open>is_dummy_alpha_channel\<close> (lines 230-237): \<open>self.output[3]\<close> raises on a buffer
  shorter than four bytes; \<open>range(7, len, 4)\<close> is the indices 7, 11, 15, ...
\<close>

definition is_dummy_alpha_channel :: "byte list \<Rightarrow> error + bool" where
  "is_dummy_alpha_channel buf =
     (if length buf \<le> 3 then Inl IndexError
      else
        let alpha = buf ! 3 in
        if alpha = 0xFF then Inr False
        else Inr (list_all (\<lambda>i. buf ! i = alpha)
                    (filter (\<lambda>i. (i - 7) mod 4 = 0) [7..<length buf])))"

text \<open>
  \<open>PrsReader.__init__\<close> and \<open>unpack\<close> (lines 147-228): the buffer of
  \<open>width * height * depth\<close> zero bytes, the loop from file offset \<open>0x10\<close>, the filter,
  and the format. The result is \<open>self.output\<close> with \<open>self.format\<close>.
\<close>

definition unpack_start :: "PrsMetaData \<Rightarrow> byte list \<Rightarrow> decode_state" where
  "unpack_start m fbytes =
     \<lparr>stream = drop 0x10 fbytes, remaining = int (packed_size m), dst = 0, bit_r = 0, ctl = 0,
      outbuf = replicate (width m * height m * (bpp m div 8)) 0\<rparr>"

definition unpack :: "PrsMetaData \<Rightarrow> byte list \<Rightarrow> error + (byte list \<times> pixel_format)" where
  "unpack m fbytes =
     (let depth = bpp m div 8 in
      case unpack_loop (unpack_start m fbytes) of
        Inl e \<Rightarrow> Inl e
      | Inr s \<Rightarrow>
          let out = (if flag m AND 0x80 \<noteq> 0 then delta_decode depth (outbuf s)
                     else outbuf s)
          in if depth = 4 then
               (case is_dummy_alpha_channel out of
                  Inl e \<Rightarrow> Inl e
                | Inr dummy \<Rightarrow> Inr (out, if dummy then RGB else RGBA))
             else Inr (out, RGB))"

text \<open>\<open>convert_prs_to_bmp\<close> (lines 279-283) up to the call of the image library.\<close>

definition convert_prs_to_bmp :: "byte list \<Rightarrow> error + (byte list \<times> pixel_format)" where
  "convert_prs_to_bmp fbytes =
     (case read_prs_meta_data fbytes of Inl e \<Rightarrow> Inl e | Inr m \<Rightarrow> unpack m fbytes)"

section \<open>The PRS encoder (PRS_IMAGE_CONVERTER.py)\<close>

text \<open>
  \<open>struct.pack\<close> raises on a value that does not fit the field; \<open>bytearray.append\<close> and
  \<open>bytes([...])\<close> raise on a value outside \<open>range(256)\<close>; an index outside a buffer raises.
\<close>

definition pack_H :: "nat \<Rightarrow> error + byte list" where
  "pack_H v = (if v < 65536 then Inr [of_nat v, of_nat (v div 256)] else Inl StructError)"

definition pack_I :: "nat \<Rightarrow> error + byte list" where
  "pack_I v =
     (if v < 4294967296
      then Inr [of_nat v, of_nat (v div 256), of_nat (v div 65536), of_nat (v div 16777216)]
      else Inl StructError)"

definition append_byte :: "byte list \<Rightarrow> int \<Rightarrow> error + byte list" where
  "append_byte buf v =
     (if 0 \<le> v \<and> v < 256 then Inr (buf @ [word_of_int v]) else Inl ByteRangeError)"

definition get_byte :: "byte list \<Rightarrow> nat \<Rightarrow> error + byte" where
  "get_byte buf i = (if i < length buf then Inr (buf ! i) else Inl IndexError)"

text \<open>
  \<open>PrsWriter.__init__\<close> (lines 16-36). The pixel loop of lines 25-32 lays the image out
  as bytes in BGR(A) order; \<open>P\<close> is that buffer, of \<open>stride * height\<close> bytes. With bit 7
  of the flag set the delta filter runs over it in place, downwards.
\<close>

definition delta_encode :: "nat \<Rightarrow> byte list \<Rightarrow> byte list" where
  "delta_encode depth buf =
     fold (\<lambda>i inp. inp[i := inp ! i - inp ! (i - depth)]) (rev [depth..<length buf]) buf"

definition PrsWriter :: "nat \<Rightarrow> nat \<Rightarrow> pixel_format \<Rightarrow> nat \<Rightarrow> byte list \<Rightarrow> PrsMetaData \<times> byte list" where
  "PrsWriter w h mode fl P =
     (let m = \<lparr>width = w, height = h, bpp = (if mode = RGBA then 32 else 24), flag = fl,
               packed_size = 0\<rparr>;
          depth = bpp m div 8
      in (m, if fl AND 0x80 \<noteq> 0 then delta_encode depth P else P))"

text \<open>\<open>hash\<close> (lines 38-41).\<close>

definition hash :: "byte list \<Rightarrow> nat \<Rightarrow> nat" where
  "hash inp index =
     (if index + 3 > length inp then 0
      else unat (inp ! index) OR push_bit 8 (unat (inp ! (index + 1)))
           OR push_bit 16 (unat (inp ! (index + 2))))"

text \<open>
  \<open>find_longest_match\<close> (lines 109-138). The inner \<open>while\<close> of lines 124-126 compares
  the input at the current position with the input at a chained position.
\<close>

function common_length :: "byte list \<Rightarrow> nat \<Rightarrow> nat \<Rightarrow> nat \<Rightarrow> nat \<Rightarrow> error + nat" where
  "common_length inp input_index offset max_length len =
     (if len < max_length then
        (case get_byte inp (input_index + len) of
           Inl e \<Rightarrow> Inl e
         | Inr a \<Rightarrow>
             (case get_byte inp (offset + len) of
                Inl e \<Rightarrow> Inl e
              | Inr b \<Rightarrow>
                  if a = b then common_length inp input_index offset max_length (len + 1)
                  else Inr len))
      else Inr len)"
  by pat_completeness auto
termination
  by (relation "measure (\<lambda>(inp, input_index, offset, max_length, len). max_length - len)") auto

text \<open>
  The \<open>for\<close> loop of lines 120-132 over the chain of one hash value, carrying
  \<open>(match_length, match_offset)\<close>; \<open>continue\<close> and \<open>break\<close> as in the source.
\<close>

fun scan_chain :: "byte list \<Rightarrow> nat \<Rightarrow> nat \<Rightarrow> nat \<Rightarrow> nat list \<Rightarrow> nat \<times> int \<Rightarrow> error + nat \<times> int" where
  "scan_chain inp input_index max_offset max_length [] best = Inr best"
| "scan_chain inp input_index max_offset max_length (offset # chain) (match_length, match_offset) =
     (if int input_index - int offset > int max_offset
      then scan_chain inp input_index max_offset max_length chain (match_length, match_offset)
      else
        (case common_length inp input_index offset max_length 0 of
           Inl e \<Rightarrow> Inl e
         | Inr len \<Rightarrow>
             if len > match_length then
               (if len = max_length then Inr (len, int input_index - int offset)
                else scan_chain inp input_index max_offset max_length chain
                       (len, int input_index - int offset))
             else scan_chain inp input_index max_offset max_length chain
                    (match_length, match_offset)))"

definition find_longest_match ::
  "byte list \<Rightarrow> (nat \<rightharpoonup> nat list) \<Rightarrow> nat \<Rightarrow> error + nat \<times> int" where
  "find_longest_match inp hash_table input_index =
     (case hash_table (hash inp input_index) of
        None \<Rightarrow> Inr (0, 0)
      | Some chain \<Rightarrow>
          let max_offset = min input_index 0x2000;
              max_length = min (length inp - input_index) 0x100
          in (case scan_chain inp input_index max_offset max_length chain (0, 0) of
                Inl e \<Rightarrow> Inl e
              | Inr (match_length, match_offset) \<Rightarrow>
                  if match_length < 3 then Inr (0, 0) else Inr (match_length, match_offset)))"

text \<open>The locals of \<open>pack\<close> with \<open>self.output\<close> and \<open>self.hash_table\<close>.\<close>

record pack_state =
  input_index :: nat
  control :: nat
  mask :: nat
  control_buffer :: "byte list"
  written :: "byte list"
  hash_table :: "nat \<rightharpoonup> nat list"

text \<open>
  Lines 58-82: one token, a literal or one of the three match encodings, is appended to
  the control buffer and the input position moves on.
\<close>

definition emit_token :: "byte list \<Rightarrow> pack_state \<Rightarrow> nat \<Rightarrow> int \<Rightarrow> error + pack_state" where
  "emit_token inp s match_length match_offset =
     (if match_length < 3 then
        (case get_byte inp (input_index s) of
           Inl e \<Rightarrow> Inl e
         | Inr v \<Rightarrow>
             Inr (s\<lparr>control_buffer := control_buffer s @ [v],
                    input_index := input_index s + 1\<rparr>))
      else
        let s1 = s\<lparr>control := control s OR mask s\<rparr> in
        (case
           (if match_length \<le> 5 \<and> match_offset \<le> 256 then
              append_byte (control_buffer s1)
                (((match_offset - 1) OR push_bit 6 (int match_length - 2)) AND 0xFF)
            else
              let encoded_offset = match_offset - 1 in
              if match_length \<le> 9 then
                let encoded_length = int match_length - 2 in
                (case append_byte (control_buffer s1) (0x80 OR drop_bit 5 encoded_offset) of
                   Inl e \<Rightarrow> Inl e
                 | Inr buf1 \<Rightarrow>
                     append_byte buf1
                       ((encoded_offset AND 0x1F) OR push_bit 5 encoded_length))
              else
                (case append_byte (control_buffer s1) (0xC0 OR drop_bit 8 encoded_offset) of
                   Inl e \<Rightarrow> Inl e
                 | Inr buf1 \<Rightarrow>
                     (case append_byte buf1 (encoded_offset AND 0xFF) of
                        Inl e \<Rightarrow> Inl e
                      | Inr buf2 \<Rightarrow> append_byte buf2 (int match_length - 1))))
         of
           Inl e \<Rightarrow> Inl e
         | Inr buf \<Rightarrow>
             Inr (s1\<lparr>control_buffer := buf, input_index := input_index s1 + match_length\<rparr>)))"

text \<open>Lines 84-90: the mask moves one place to the left; a full group is written out.\<close>

definition flush_group :: "pack_state \<Rightarrow> error + pack_state" where
  "flush_group s =
     (let m = push_bit 1 (mask s) in
      if m = 0x100 then
        (if control s < 256 then
           Inr (s\<lparr>written := written s @ [of_nat (control s)] @ control_buffer s,
                  control_buffer := [], control := 0, mask := 1\<rparr>)
         else Inl ByteRangeError)
      else Inr (s\<lparr>mask := m\<rparr>))"

text \<open>
  Lines 92-97: the positions \<open>range(input_index - match_length, input_index)\<close> are
  appended to the chains of their hash values. \<open>find_longest_match\<close> returns a length
  of 0 or of at least 3, so the range never starts below 0.
\<close>

definition register_positions :: "byte list \<Rightarrow> nat \<Rightarrow> pack_state \<Rightarrow> pack_state" where
  "register_positions inp match_length s =
     s\<lparr>hash_table :=
         fold (\<lambda>i tbl.
                 let h = hash inp i;
                     chain = (case tbl h of None \<Rightarrow> [] | Some c \<Rightarrow> c)
                 in tbl(h \<mapsto> chain @ [i]))
              [input_index s - match_length..<input_index s] (hash_table s)\<rparr>"

definition pack_step :: "byte list \<Rightarrow> pack_state \<Rightarrow> error + pack_state" where
  "pack_step inp s =
     (case find_longest_match inp (hash_table s) (input_index s) of
        Inl e \<Rightarrow> Inl e
      | Inr (match_length, match_offset) \<Rightarrow>
          (case emit_token inp s match_length match_offset of
             Inl e \<Rightarrow> Inl e
           | Inr s1 \<Rightarrow>
               (case flush_group s1 of
                  Inl e \<Rightarrow> Inl e
                | Inr s2 \<Rightarrow> Inr (register_positions inp match_length s2))))"

text \<open>The loop of lines 55-97.\<close>

function pack_loop :: "byte list \<Rightarrow> pack_state \<Rightarrow> error + pack_state" where
  "pack_loop inp s =
     (if input_index s < length inp then
        (case pack_step inp s of Inl e \<Rightarrow> Inl e | Inr s1 \<Rightarrow> pack_loop inp s1)
      else Inr s)"
  by pat_completeness auto
termination
proof (relation "measure (\<lambda>(inp, s). length inp - input_index s)")
  show "wf (measure (\<lambda>(inp, s). length inp - input_index s))" by simp
next
  fix inp s s1
  assume "input_index s < length inp" "pack_step inp s = Inr s1"
  then show "((inp, s1), (inp, s)) \<in> measure (\<lambda>(inp, s). length inp - input_index s)"
    by (auto simp: pack_step_def emit_token_def flush_group_def register_positions_def Let_def
        split: sum.splits prod.splits if_splits)
qed

text \<open>
  \<open>pack\<close> (lines 43-107): the header with eight placeholder bytes, the loop, the last
  partial group, and the packed size written back at offset 4. The result is the content
  of \<open>self.output\<close>, which \<open>save_to_file\<close> writes out.
\<close>

definition pack :: "PrsMetaData \<Rightarrow> byte list \<Rightarrow> error + byte list" where
  "pack m inp =
     (if \<not> flag m < 256 \<or> \<not> bpp m div 8 < 256 then Inl ByteRangeError
      else
        (case pack_H (width m) of Inl e \<Rightarrow> Inl e | Inr wb \<Rightarrow>
        (case pack_H (height m) of Inl e \<Rightarrow> Inl e | Inr hb \<Rightarrow>
           let header = [0x59, 0x42] @ [of_nat (flag m), of_nat (bpp m div 8)]
                        @ replicate 8 0 @ wb @ hb
           in
           (case pack_loop inp \<lparr>input_index = 0, control = 0, mask = 1, control_buffer = [],
                                 written = header, hash_table = Map.empty\<rparr> of
              Inl e \<Rightarrow> Inl e
            | Inr s \<Rightarrow>
                (case
                   (if mask s \<noteq> 1 \<or> control_buffer s \<noteq> [] then
                      (if control s < 256
                       then Inr (written s @ [of_nat (control s)] @ control_buffer s)
                       else Inl ByteRangeError)
                    else Inr (written s))
                 of
                   Inl e \<Rightarrow> Inl e
                 | Inr out \<Rightarrow>
                     (case pack_I (length out - 16) of
                        Inl e \<Rightarrow> Inl e
                      | Inr ps \<Rightarrow> Inr (take 4 out @ ps @ drop 8 out)))))))"

section \<open>The MgData archive reader (ExMgData.py)\<close>


record MgDataParams =
  entry_size :: nat
  name_offset :: nat
  file_offset :: nat
  size_offset :: nat
  key :: "byte list"










section \<open>The MgGra archive packer (PkmgGra.py)\<close>

text \<open>
  The string functions of the Python runtime that the packer calls are parameters:
  \<open>stem_lower\<close> is \<open>os.path.splitext(os.path.basename(path))[0].lower()\<close>, \<open>str_upper\<close>
  is \<open>str.upper\<close>, and \<open>encode_utf8\<close> is \<open>str.encode('utf-8')\<close>, \<open>None\<close> where it
  raises. A string is a list of characters of any type.
\<close>

record ('p, 'c) str_lib =
  stem_lower :: "'p \<Rightarrow> 'c list"
  str_upper :: "'c list \<Rightarrow> 'c list"
  encode_utf8 :: "'c list \<Rightarrow> byte list option"

text \<open>\<open>Entry\<close> (lines 10-16); the type field is the constant \<open>"image"\<close>.\<close>

record 'c Entry =
  ename :: "'c list"
  eoffset :: nat
  esize :: nat

text \<open>The slice \<open>xs[:n]\<close>; a negative \<open>n\<close> counts from the end.\<close>

definition py_prefix :: "'a list \<Rightarrow> int \<Rightarrow> 'a list" where
  "py_prefix xs n = (if 0 \<le> n then take (nat n) xs else take (nat (int (length xs) + n)) xs)"

text \<open>\<open>write_fixed_length_string\<close> (lines 18-28): the bytes it writes.\<close>

definition write_fixed_length_string ::
  "('c list \<Rightarrow> byte list option) \<Rightarrow> 'c list \<Rightarrow> nat \<Rightarrow> error + byte list" where
  "write_fixed_length_string enc string len =
     (let btw = [0x00, 0x50, 0x52, 0x53] in
      case enc string of
        None \<Rightarrow> Inl UnicodeEncodeError
      | Some encoded \<Rightarrow>
          let ext = (if len \<ge> 9 then py_prefix btw (int len - int (length string)) else btw);
              padding = int len - (int (length string) + 4)
          in Inr (encoded @ ext @ (if padding > 0 then replicate (nat padding) 0 else [])))"

text \<open>
  The first loop of \<open>pack_files\<close> (lines 41-65) over the files, each a path with its
  content: the entries and the data buffer. \<open>file_data[0]\<close> raises on an empty file; both
  branches of the test of the first byte take the data as it is.
\<close>

fun build_entries ::
  "('p, 'c) str_lib \<Rightarrow> nat \<Rightarrow> ('p \<times> byte list) list \<Rightarrow> nat
     \<Rightarrow> error + ('c Entry list \<times> byte list)" where
  "build_entries lib data_section_offset [] offset = Inr ([], [])"
| "build_entries lib data_section_offset ((file_path, file_data) # rest) offset =
     (let name_without_ext = stem_lower lib file_path in
      case get_byte file_data 0 of
        Inl e \<Rightarrow> Inl e
      | Inr first \<Rightarrow>
          let compressed_data = (if first = 0x78 then file_data else file_data);
              sz = length compressed_data;
              entry_offset = offset;
              entry = \<lparr>ename = str_upper lib (take 13 name_without_ext),
                       eoffset = data_section_offset + entry_offset, esize = sz\<rparr>
          in (case build_entries lib data_section_offset rest (offset + sz) of
                Inl e \<Rightarrow> Inl e
              | Inr (entries, data_buffer) \<Rightarrow>
                  Inr (entry # entries, compressed_data @ data_buffer)))"

text \<open>Lines 73-78: one index record, the name slot with offset and size.\<close>

definition write_entry :: "('p, 'c) str_lib \<Rightarrow> 'c Entry \<Rightarrow> error + byte list" where
  "write_entry lib entry =
     (case write_fixed_length_string (encode_utf8 lib) (ename entry) 13 of
        Inl e \<Rightarrow> Inl e
      | Inr name_bytes \<Rightarrow>
          (case pack_I (eoffset entry) of
             Inl e \<Rightarrow> Inl e
           | Inr offset_bytes \<Rightarrow>
               (case pack_I (esize entry) of
                  Inl e \<Rightarrow> Inl e
                | Inr size_bytes \<Rightarrow> Inr (name_bytes @ offset_bytes @ size_bytes))))"

text \<open>Lines 68-78: the count, the name length 13, and the index records.\<close>

definition index_section :: "('p, 'c) str_lib \<Rightarrow> 'c Entry list \<Rightarrow> error + byte list" where
  "index_section lib entries =
     (case pack_I (length entries) of
        Inl e \<Rightarrow> Inl e
      | Inr count_bytes \<Rightarrow>
          (case pack_I 13 of
             Inl e \<Rightarrow> Inl e
           | Inr len_bytes \<Rightarrow>
               (case collect (write_entry lib) entries of
                  Inl e \<Rightarrow> Inl e
                | Inr records \<Rightarrow> Inr (count_bytes @ len_bytes @ concat records))))"

text \<open>
  \<open>pack_files\<close> (lines 30-81): the bytes of the archive, the index followed by the data
  buffer. The data section is taken to start at \<open>8 + 0x15 * len(file_paths)\<close>.
\<close>

definition pack_files :: "('p, 'c) str_lib \<Rightarrow> ('p \<times> byte list) list \<Rightarrow> error + byte list" where
  "pack_files lib files =
     (let header_size = 8;
          data_section_offset = header_size + 0x15 * length files
      in case build_entries lib data_section_offset files 0 of
           Inl e \<Rightarrow> Inl e
         | Inr (entries, data_buffer) \<Rightarrow>
             (case index_section lib entries of
                Inl e \<Rightarrow> Inl e
              | Inr index \<Rightarrow> Inr (index @ data_buffer)))"

section \<open>Properties of the XOR cipher\<close>

lemma collect_total:
  "(\<And>x. x \<in> set xs \<Longrightarrow> f x = Inr (g x)) \<Longrightarrow> collect f xs = Inr (map g xs)"
  by (induction xs) simp_all

lemma collect_error_elem:
  "collect f xs = Inl e \<Longrightarrow> \<exists>x \<in> set xs. f x = Inl e"
  by (induction xs) (auto split: sum.splits)

text \<open>The result of the cipher where it does not raise.\<close>

definition xor_bytes :: "byte list \<Rightarrow> byte list \<Rightarrow> byte list" where
  "xor_bytes data k = map (\<lambda>i. (data ! i) XOR (k ! (i mod length k))) [0..<length data]"

lemma xor_decrypt_nonempty_key:
  "k \<noteq> [] \<Longrightarrow> xor_decrypt data k = Inr (xor_bytes data k)"
  unfolding xor_decrypt_def xor_bytes_def
  by (rule collect_total) (simp add: xor_at_def)

lemma xor_encrypt_eq_decrypt: "xor_encrypt data k = xor_decrypt data k"
  by (simp add: xor_encrypt_def xor_decrypt_def)

lemma length_xor_bytes: "length (xor_bytes data k) = length data"
  by (simp add: xor_bytes_def)

lemma xor_bytes_twice: "xor_bytes (xor_bytes data k) k = data"
  by (rule nth_equalityI) (simp_all add: xor_bytes_def xor.assoc)

lemma xor_decrypt_error_key:
  assumes "xor_decrypt data k = Inl e"
  shows "k = [] \<and> e = ZeroDivisionError"
proof -
  from assms obtain i where "xor_at data k i = Inl e"
    unfolding xor_decrypt_def by (blast dest: collect_error_elem)
  then show ?thesis
    by (auto simp: xor_at_def split: if_splits)
qed

text \<open>
  C9. XOR involution: for every byte sequence \<open>b\<close> and every non-empty key \<open>k\<close>, both
  \<open>xor_decrypt\<close> and \<open>xor_encrypt\<close> return a result of the length of \<open>b\<close>, applying either
  of them again with the same key gives \<open>b\<close> back, and either operation raises only when the
  key is empty.
\<close>

theorem xor_involution:
  "(k \<noteq> [] \<longrightarrow>
      (\<exists>c. xor_encrypt b k = Inr c \<and> xor_decrypt b k = Inr c \<and> length c = length b
          \<and> xor_decrypt c k = Inr b \<and> xor_encrypt c k = Inr b))
   \<and> (\<forall>e. xor_decrypt b k = Inl e \<or> xor_encrypt b k = Inl e \<longrightarrow> k = [])"
proof (intro conjI impI allI)
  assume k: "k \<noteq> []"
  show "\<exists>c. xor_encrypt b k = Inr c \<and> xor_decrypt b k = Inr c \<and> length c = length b
          \<and> xor_decrypt c k = Inr b \<and> xor_encrypt c k = Inr b"
    using k
    by (simp add: xor_encrypt_eq_decrypt xor_decrypt_nonempty_key length_xor_bytes
        xor_bytes_twice)
next
  fix e
  assume "xor_decrypt b k = Inl e \<or> xor_encrypt b k = Inl e"
  then have "xor_decrypt b k = Inl e"
    by (simp add: xor_encrypt_eq_decrypt)
  then show "k = []"
    by (simp add: xor_decrypt_error_key)
qed

theorem xor_involution_witness:
  "[0x6B :: byte] \<noteq> []
   \<and> xor_encrypt [0xDE, 0xAD, 0xBE, 0xEF] [0x6B :: byte] = Inr [0xB5, 0xC6, 0xD5, 0x84]
   \<and> xor_decrypt [0xB5, 0xC6, 0xD5, 0x84] [0x6B :: byte] = Inr [0xDE, 0xAD, 0xBE, 0xEF]
   \<and> xor_decrypt [0xDE :: byte] [] = Inl ZeroDivisionError"
proof -
  have enc: "xor_encrypt [0xDE, 0xAD, 0xBE, 0xEF] [0x6B :: byte] = Inr [0xB5, 0xC6, 0xD5, 0x84]"
    by (simp add: xor_encrypt_def xor_at_def upt_rec)
  have err: "xor_decrypt [0xDE :: byte] [] = Inl ZeroDivisionError"
    by (simp add: xor_decrypt_def xor_at_def upt_rec)
  from xor_involution [of "[0x6B]" "[0xDE, 0xAD, 0xBE, 0xEF]"] enc err
  show ?thesis by auto
qed

section \<open>The encoder emits literals only\<close>

text \<open>
  \<open>find_longest_match\<close> looks a hash value up in \<open>self.hash_table\<close>, and the table gets
  its entries in lines 93-97 from \<open>range(input_index - match_length, input_index)\<close>. The
  table starts empty, so the first token is a literal with \<open>match_length = 0\<close>, for which
  that range is empty; the table stays empty and every token is a literal. The payload of
  \<open>pack\<close> is then the input in groups of up to eight bytes, each after a control byte 0.
\<close>

function lit_groups :: "byte list \<Rightarrow> byte list" where
  "lit_groups xs = (if xs = [] then [] else 0 # take 8 xs @ lit_groups (drop 8 xs))"
  by pat_completeness auto
termination
  by (relation "measure length") auto

declare lit_groups.simps [simp del]

lemma lit_groups_Nil [simp]: "lit_groups [] = []"
  by (simp add: lit_groups.simps)

lemma lit_groups_short:
  "xs \<noteq> [] \<Longrightarrow> length xs < 8 \<Longrightarrow> lit_groups xs = 0 # xs"
  by (subst lit_groups.simps) simp

lemma lit_groups_full:
  "length xs = 8 \<Longrightarrow> lit_groups (xs @ ys) = 0 # xs @ lit_groups ys"
  by (subst lit_groups.simps) auto

lemma group_arith:
  assumes "0 < (n::nat)"
  shows "1 + min n 8 + ((n - 8) + (n - 8 + 7) div 8) = n + (n + 7) div 8"
proof (cases "n \<le> 8")
  case True
  with assms obtain m where m: "n = Suc m" "m < 8"
    by (cases n) auto
  then show ?thesis by simp
next
  case False
  then obtain m where m: "n = m + 9"
    using le_Suc_ex [of 9 n] by (auto simp: add.commute)
  then show ?thesis by simp
qed

lemma length_lit_groups: "length (lit_groups xs) = length xs + (length xs + 7) div 8"
proof (induction xs rule: lit_groups.induct)
  case (1 xs)
  show ?case
  proof (cases "xs = []")
    case True
    then show ?thesis by simp
  next
    case False
    with 1 have IH: "length (lit_groups (drop 8 xs)) = (length xs - 8) + (length xs - 8 + 7) div 8"
      by simp
    from False have pos: "0 < length xs" by simp
    have "length (lit_groups xs) = 1 + min (length xs) 8 + length (lit_groups (drop 8 xs))"
      using False by (subst lit_groups.simps) simp
    with IH group_arith [OF pos] show ?thesis
      by simp
  qed
qed

lemma find_longest_match_empty: "find_longest_match inp Map.empty i = Inr (0, 0)"
  by (simp add: find_longest_match_def)

text \<open>What lines 99-102 make of the output once the loop has ended.\<close>

definition pending :: "pack_state \<Rightarrow> byte list" where
  "pending s = (if mask s \<noteq> 1 \<or> control_buffer s \<noteq> [] then written s @ [of_nat (control s)] @ control_buffer s else written s)"

lemma pack_step_literal:
  assumes "hash_table s = Map.empty" "input_index s < length inp"
  shows "pack_step inp s = 
     flush_group (s\<lparr>control_buffer := control_buffer s @ [inp ! input_index s], input_index := input_index s + 1\<rparr>)"
  using assms
  by (simp add: pack_step_def find_longest_match_empty emit_token_def get_byte_def register_positions_def
      split: sum.splits)

lemma pack_loop_literals:
  assumes "hash_table s = Map.empty" "control s = 0" "mask s = 2 ^ k" "k < 8"
    "length (control_buffer s) = k" "input_index s \<le> length inp"
  shows "\<exists>s'. pack_loop inp s = Inr s' \<and> control s' < 256 \<and>
           pending s' = written s @ lit_groups (control_buffer s @ drop (input_index s) inp)"
  using assms
proof (induction "length inp - input_index s" arbitrary: s k)
  case 0
  then have "pack_loop inp s = Inr s" by simp
  moreover from 0 have "drop (input_index s) inp = []" by simp
  moreover have "pending s = written s @ lit_groups (control_buffer s)"
  proof (cases "k = 0")
    case True
    with 0 show ?thesis by (simp add: pending_def)
  next
    case False
    with 0 have "control_buffer s \<noteq> []" "length (control_buffer s) < 8" by auto
    with 0 show ?thesis by (simp add: pending_def lit_groups_short)
  qed
  ultimately show ?case using 0 by simp
next
  case (Suc n)
  let ?i = "input_index s"
  let ?s1 = "s\<lparr>control_buffer := control_buffer s @ [inp ! ?i], input_index := ?i + 1\<rparr>"
  from Suc have lt: "?i < length inp" by simp
  have dr: "drop ?i inp = inp ! ?i # drop (?i + 1) inp"
    using lt by (simp add: Cons_nth_drop_Suc)
  have step: "pack_step inp s = flush_group ?s1"
    using Suc.prems(1) lt by (rule pack_step_literal)
  show ?case
  proof (cases "k = 7")
    case True
    let ?s2 = "?s1\<lparr>written := written s @ [0] @ control_buffer s @ [inp ! ?i], control_buffer := [], control := 0, mask := 1\<rparr>"
    have fl: "flush_group ?s1 = Inr ?s2"
      using Suc.prems True by (simp add: flush_group_def)
    have "\<exists>s'. pack_loop inp ?s2 = Inr s' \<and> control s' < 256 \<and>
           pending s' = written ?s2 @ lit_groups (control_buffer ?s2 @ drop (input_index ?s2) inp)"
      using Suc.prems Suc.hyps(2) lt by (intro Suc.hyps(1) [where k = 0]) auto
    moreover have "pack_loop inp s = pack_loop inp ?s2"
      using lt step fl by (subst pack_loop.simps) simp
    moreover have "lit_groups (control_buffer s @ drop ?i inp)
        = 0 # (control_buffer s @ [inp ! ?i]) @ lit_groups (drop (?i + 1) inp)"
      using Suc.prems True lit_groups_full [of "control_buffer s @ [inp ! ?i]" "drop (?i + 1) inp"]
      by (simp add: dr)
    ultimately show ?thesis by simp
  next
    case False
    let ?s2 = "?s1\<lparr>mask := 2 ^ (k + 1)\<rparr>"
    from False Suc.prems have k6: "k < 7" by simp
    then have ne: "(2::nat) ^ (k + 1) \<noteq> 256"
      using power_strict_increasing [of "k + 1" 8 "2::nat"] by simp
    have fl: "flush_group ?s1 = Inr ?s2"
      using Suc.prems ne by (simp add: flush_group_def push_bit_eq_mult Let_def)
    have "\<exists>s'. pack_loop inp ?s2 = Inr s' \<and> control s' < 256 \<and>
           pending s' = written ?s2 @ lit_groups (control_buffer ?s2 @ drop (input_index ?s2) inp)"
      using Suc.prems Suc.hyps(2) lt k6 by (intro Suc.hyps(1) [where k = "k + 1"]) auto
    moreover have "pack_loop inp s = pack_loop inp ?s2"
      using lt step fl by (subst pack_loop.simps) simp
    ultimately show ?thesis by (simp add: dr)
  qed
qed


lemma lit_groups_Cons:
  "lit_groups (z # zs) = 0 # z # take 7 zs @ lit_groups (drop 7 zs)"
  by (subst lit_groups.simps) simp

lemma take_Suc_update:
  "d < length xs \<Longrightarrow> take (Suc d) (xs[d := z]) = take d xs @ [z]"
  by (simp add: take_Suc_conv_app_nth)

lemma drop_bit_le_1: "b \<le> 1 \<Longrightarrow> drop_bit 1 (b::nat) = 0"
  by (simp add: drop_bit_eq_div)

lemma drop_bit_pow2: "0 < k \<Longrightarrow> drop_bit 1 ((2::nat) ^ k) = 2 ^ (k - 1)"
  by (cases k) (simp_all add: drop_bit_eq_div)

lemma unpack_loop_literals:
  assumes "stream s = take k zs @ lit_groups (drop k zs)"
    "remaining s = int (length (stream s))"
    "k \<le> 7" "k = 0 \<longrightarrow> bit_r s \<le> 1" "0 < k \<longrightarrow> bit_r s = 2 ^ k \<and> ctl s = 0"
    "dst s + length zs = length (outbuf s)"
  shows "\<exists>s'. unpack_loop s = Inr s' \<and> outbuf s' = take (dst s) (outbuf s) @ zs"
  using assms
proof (induction zs arbitrary: s k)
  case Nil
  then have "unpack_loop s = Inr s"
    by (subst unpack_loop.simps) simp
  with Nil show ?case by simp
next
  case (Cons z zs)
  let ?out = "(outbuf s)[dst s := z]"
  from Cons.prems have d: "dst s < length (outbuf s)" by simp
  have "\<exists>s2 k2. decode_token s = Inr (Next s2) \<and> stream s2 = take k2 zs @ lit_groups (drop k2 zs)
      \<and> remaining s2 = int (length (stream s2)) \<and> k2 \<le> 7 \<and> (k2 = 0 \<longrightarrow> bit_r s2 \<le> 1)
      \<and> (0 < k2 \<longrightarrow> bit_r s2 = 2 ^ k2 \<and> ctl s2 = 0)
      \<and> outbuf s2 = ?out \<and> dst s2 = dst s + 1"
  proof (cases "k = 0")
    case True
    with Cons.prems have st: "stream s = 0 # z # take 7 zs @ lit_groups (drop 7 zs)"
      by (simp add: lit_groups_Cons)
    from True Cons.prems(4) have b: "drop_bit 1 (bit_r s) = 0"
      by (intro drop_bit_le_1) simp
    let ?s2 = "s\<lparr>stream := take 7 zs @ lit_groups (drop 7 zs), ctl := 0,
                   remaining := remaining s - 2, bit_r := 0x80, outbuf := ?out, dst := dst s + 1\<rparr>"
    have "decode_token s = Inr (Next ?s2)"
      using st b d Cons.prems(2)
      by (simp add: decode_token_def advance_bit_def read_byte_def literal_def)
    moreover have "remaining ?s2 = int (length (stream ?s2))"
      using st Cons.prems(2) by simp
    ultimately show ?thesis
      by (intro exI [of _ ?s2] exI [of _ 7]) simp
  next
    case False
    then obtain j where j: "k = Suc j" by (cases k) auto
    with Cons.prems have st: "stream s = z # take j zs @ lit_groups (drop j zs)"
      and c: "ctl s = 0" and br: "bit_r s = 2 ^ k"
      by simp_all
    from br j have b: "drop_bit 1 (bit_r s) = 2 ^ j"
      using drop_bit_pow2 [of k] by simp
    let ?s2 = "s\<lparr>bit_r := 2 ^ j, stream := take j zs @ lit_groups (drop j zs),
                   outbuf := ?out, dst := dst s + 1, remaining := remaining s - 1\<rparr>"
    have "decode_token s = Inr (Next ?s2)"
      using st b c d Cons.prems(2)
      by (simp add: decode_token_def advance_bit_def read_byte_def literal_def)
    moreover have "remaining ?s2 = int (length (stream ?s2))"
      using st Cons.prems(2) by simp
    ultimately show ?thesis
      using j Cons.prems(3) c by (intro exI [of _ ?s2] exI [of _ j]) simp
  qed
  then obtain s2 k2 where tok: "decode_token s = Inr (Next s2)"
    and inv: "stream s2 = take k2 zs @ lit_groups (drop k2 zs)"
      "remaining s2 = int (length (stream s2))" "k2 \<le> 7" "k2 = 0 \<longrightarrow> bit_r s2 \<le> 1"
      "0 < k2 \<longrightarrow> bit_r s2 = 2 ^ k2 \<and> ctl s2 = 0"
    and o2: "outbuf s2 = ?out" and d2: "dst s2 = dst s + 1"
    by blast
  from Cons.prems o2 d2 have "dst s2 + length zs = length (outbuf s2)" by simp
  with inv obtain s' where s': "unpack_loop s2 = Inr s'"
    "outbuf s' = take (dst s2) (outbuf s2) @ zs"
    using Cons.IH [of s2 k2] by blast
  have ne: "stream s \<noteq> []"
    using Cons.prems(1) by (cases k) (simp_all add: lit_groups_Cons)
  then have "0 < remaining s" using Cons.prems(2) by simp
  with d tok have "unpack_loop s = unpack_loop s2"
    by (subst unpack_loop.simps) simp
  with s' o2 d2 d show ?case
    by (simp add: take_Suc_update)
qed

text \<open>
  Legal dimensions: a width and a height of at least one pixel that fit the 16-bit fields
  of the header, and a buffer of \<open>n = w * h * depth\<close> bytes whose payload of
  \<open>n + \<lceil>n / 8\<rceil>\<close> bytes fits the 32-bit field \<open>packed_size\<close>. Outside of these
  \<open>struct.pack\<close> raises in \<open>pack\<close>; an image without pixels and with four bytes per
  pixel raises in \<open>is_dummy_alpha_channel\<close>.
\<close>

definition legal_dims :: "nat \<Rightarrow> nat \<Rightarrow> pixel_format \<Rightarrow> bool" where
  "legal_dims w h mode =
     (let n = w * h * (if mode = RGBA then 4 else 3)
      in 0 < w \<and> w < 65536 \<and> 0 < h \<and> h < 65536 \<and> n + (n + 7) div 8 < 4294967296)"

lemma unat_byte_of_nat: "unat (of_nat v :: byte) = v mod 256"
  by (simp add: unat_of_nat)

lemma le16_value:
  "v < 65536 \<Longrightarrow> unat (of_nat v :: byte) + 256 * unat (of_nat (v div 256) :: byte) = v"
  by (simp add: unat_byte_of_nat)

lemma le32_value:
  assumes "v < 4294967296"
  shows "unat (of_nat v :: byte) + 256 * unat (of_nat (v div 256) :: byte)
     + 65536 * unat (of_nat (v div 65536) :: byte)
     + 16777216 * unat (of_nat (v div 16777216) :: byte) = v"
proof -
  define a b c r0 r1 r2 where "a = v div 256" and "b = a div 256" and "c = b div 256"
    and "r0 = v mod 256" and "r1 = a mod 256" and "r2 = b mod 256"
  have e: "v div 65536 = b" "v div 16777216 = c"
    by (simp_all add: a_def b_def c_def div_mult2_eq [symmetric])
  have d: "v = r0 + 256 * a" "a = r1 + 256 * b" "b = r2 + 256 * c"
    by (simp_all add: r0_def r1_def r2_def a_def b_def c_def)
  from assms have "c < 256"
    by (simp add: e(2) [symmetric])
  then have "c mod 256 = c" by simp
  then have "r0 + 256 * r1 + 65536 * r2 + 16777216 * (c mod 256) = v"
    using d by simp
  then show ?thesis
    unfolding unat_byte_of_nat e a_def [symmetric] r0_def r1_def r2_def .
qed

text \<open>A PRS file written out field by field, and the header as \<open>pack\<close> first writes it.\<close>

definition prs_file :: "PrsMetaData \<Rightarrow> byte list \<Rightarrow> byte list" where
  "prs_file m payload =
     (let n = length payload in
      [0x59, 0x42, of_nat (flag m), of_nat (bpp m div 8),
       of_nat n, of_nat (n div 256), of_nat (n div 65536), of_nat (n div 16777216),
       0, 0, 0, 0,
       of_nat (width m), of_nat (width m div 256), of_nat (height m), of_nat (height m div 256)]
      @ payload)"

definition prs_header :: "PrsMetaData \<Rightarrow> byte list" where
  "prs_header m = [0x59, 0x42] @ [of_nat (flag m), of_nat (bpp m div 8)] @ replicate 8 0
      @ [of_nat (width m), of_nat (width m div 256)] @ [of_nat (height m), of_nat (height m div 256)]"

lemma replicate_8: "replicate 8 x = [x, x, x, x, x, x, x, x]"
  by (simp add: eval_nat_numeral)

lemma length_prs_header: "length (prs_header m) = 16"
  by (simp add: prs_header_def)

lemma pack_unfold:
  assumes "flag m < 256" "bpp m div 8 < 256" "width m < 65536" "height m < 65536"
  shows "pack m inp =
    (case pack_loop inp \<lparr>input_index = 0, control = 0, mask = 1, control_buffer = [],
                                 written = prs_header m, hash_table = Map.empty\<rparr> of
              Inl e \<Rightarrow> Inl e
            | Inr s \<Rightarrow>
                (case
                   (if mask s \<noteq> 1 \<or> control_buffer s \<noteq> [] then
                      (if control s < 256
                       then Inr (written s @ [of_nat (control s)] @ control_buffer s)
                       else Inl ByteRangeError)
                    else Inr (written s))
                 of
                   Inl e \<Rightarrow> Inl e
                 | Inr out \<Rightarrow>
                     (case pack_I (length out - 16) of
                        Inl e \<Rightarrow> Inl e
                      | Inr ps \<Rightarrow> Inr (take 4 out @ ps @ drop 8 out))))"
  using assms unfolding pack_def pack_H_def prs_header_def Let_def
  by (simp only: if_True if_False simp_thms sum.case not_less [symmetric] not_not)


lemma pack_literals:
  assumes "flag m < 256" "bpp m div 8 < 256" "width m < 65536" "height m < 65536"
    "length (lit_groups inp) < 4294967296"
  shows "pack m inp = Inr (prs_file m (lit_groups inp))"
proof -
  let ?s0 = "\<lparr>input_index = 0, control = 0, mask = 1, control_buffer = [],
      written = prs_header m, hash_table = Map.empty\<rparr>"
  have "\<exists>s'. pack_loop inp ?s0 = Inr s' \<and> control s' < 256 \<and>
           pending s' = written ?s0 @ lit_groups (control_buffer ?s0 @ drop (input_index ?s0) inp)"
    by (rule pack_loop_literals [where k = 0]) simp_all
  then obtain s' where s': "pack_loop inp ?s0 = Inr s'" "control s' < 256"
    "pending s' = prs_header m @ lit_groups inp"
    by auto
  have fin: "(if mask s' \<noteq> 1 \<or> control_buffer s' \<noteq> [] then
                (if control s' < 256
                 then Inr (written s' @ [of_nat (control s')] @ control_buffer s')
                 else Inl ByteRangeError)
              else Inr (written s')) = Inr (pending s')"
    using s'(2) by (simp add: pending_def)
  have len: "length (pending s') - 16 = length (lit_groups inp)"
    by (simp add: s'(3) length_prs_header)
  have pI: "pack_I (length (lit_groups inp)) =
      Inr [of_nat (length (lit_groups inp)), of_nat (length (lit_groups inp) div 256),
           of_nat (length (lit_groups inp) div 65536), of_nat (length (lit_groups inp) div 16777216)]"
    using assms(5) by (simp add: pack_I_def)
  have "pack m inp = Inr (take 4 (pending s') @
      [of_nat (length (lit_groups inp)), of_nat (length (lit_groups inp) div 256),
           of_nat (length (lit_groups inp) div 65536), of_nat (length (lit_groups inp) div 16777216)]
      @ drop 8 (pending s'))"
    by (simp only: pack_unfold [OF assms(1-4)] s'(1) sum.case fin len pI)
  also have "\<dots> = Inr (prs_file m (lit_groups inp))"
    unfolding s'(3) by (simp add: prs_header_def prs_file_def Let_def replicate_8)
  finally show ?thesis .
qed

lemma read_prs_file:
  assumes "bpp m div 8 = 3 \<or> bpp m div 8 = 4" "flag m < 256" "width m < 65536" "height m < 65536"
    "length payload < 4294967296"
  shows "read_prs_meta_data (prs_file m payload) =
     Inr \<lparr>width = width m, height = height m, bpp = bpp m div 8 * 8, flag = flag m,
          packed_size = length payload\<rparr>"
  using assms le16_value [of "width m"] le16_value [of "height m"] le32_value [of "length payload"]
  by (auto simp: read_prs_meta_data_def prs_file_def unpack_H_def unpack_I_def Let_def
      unat_byte_of_nat)

lemma drop_prs_file: "drop 0x10 (prs_file m payload) = payload"
  by (simp add: prs_file_def Let_def)


lemma unpack_literals:
  assumes "flag m AND 0x80 = 0" "length P = width m * height m * (bpp m div 8)"
    "packed_size m = length (lit_groups P)" "bpp m div 8 = 4 \<longrightarrow> 3 < length P"
  shows "\<exists>fmt. unpack m (prs_file m' (lit_groups P)) = Inr (P, fmt)"
proof -
  let ?s0 = "\<lparr>stream = lit_groups P, remaining = int (length (lit_groups P)), dst = 0,
      bit_r = 0, ctl = 0, outbuf = replicate (width m * height m * (bpp m div 8)) 0\<rparr>"
  have "\<exists>s'. unpack_loop ?s0 = Inr s' \<and> outbuf s' = take (dst ?s0) (outbuf ?s0) @ P"
    using assms(2) by (intro unpack_loop_literals [where k = 0]) simp_all
  then obtain s' where s': "unpack_loop ?s0 = Inr s'" "outbuf s' = P"
    by auto
  have alpha: "3 < length P \<Longrightarrow> \<exists>d. is_dummy_alpha_channel P = Inr d"
    by (auto simp: is_dummy_alpha_channel_def Let_def)
  show ?thesis
  proof (cases "bpp m div 8 = 4")
    case True
    with assms(4) alpha obtain d where "is_dummy_alpha_channel P = Inr d" by blast
    with True assms(1,3) s' show ?thesis
      by (simp add: unpack_def unpack_start_def drop_prs_file)
  next
    case False
    with assms(1,3) s' show ?thesis
      by (simp add: unpack_def unpack_start_def drop_prs_file)
  qed
qed

text \<open>
  C1. PRS round trip without the delta filter: for every pixel buffer \<open>P\<close> of
  \<open>w * h * depth\<close> bytes with legal dimensions, \<open>pack\<close> on the writer built with flag 0
  returns a file, and decoding that file returns exactly \<open>P\<close>.
\<close>

theorem prs_roundtrip_no_filter:
  assumes "legal_dims w h mode" and "length P = w * h * (if mode = RGBA then 4 else 3)"
  shows "\<exists>fbytes fmt. pack (fst (PrsWriter w h mode 0 P)) (snd (PrsWriter w h mode 0 P)) = Inr fbytes
           \<and> convert_prs_to_bmp fbytes = Inr (P, fmt)"
proof -
  let ?d = "if mode = RGBA then 4 else (3::nat)"
  let ?m = "\<lparr>width = w, height = h, bpp = (if mode = RGBA then 32 else 24), flag = 0,
             packed_size = 0\<rparr>"
  let ?m' = "\<lparr>width = w, height = h, bpp = ?d * 8, flag = 0,
             packed_size = length (lit_groups P)\<rparr>"
  have d: "bpp ?m div 8 = ?d" by simp
  have W: "PrsWriter w h mode 0 P = (?m, P)"
    by (simp add: PrsWriter_def)
  from assms have dims: "0 < w" "w < 65536" "0 < h" "h < 65536"
    and sz: "length (lit_groups P) < 4294967296"
    by (simp_all add: legal_dims_def Let_def length_lit_groups)
  have P: "pack ?m P = Inr (prs_file ?m (lit_groups P))"
    using dims sz by (intro pack_literals) auto
  have R: "read_prs_meta_data (prs_file ?m (lit_groups P)) = Inr ?m'"
    using read_prs_file [of ?m "lit_groups P"] dims sz by auto
  have pos: "0 < w * h" using dims by simp
  then obtain n where "w * h = Suc n" by (cases "w * h") auto
  then have "3 < w * h * 4" by simp
  then have "\<exists>fmt. unpack ?m' (prs_file ?m (lit_groups P)) = Inr (P, fmt)"
    using assms(2) by (intro unpack_literals) auto
  then show ?thesis
    unfolding W fst_conv snd_conv P by (simp add: convert_prs_to_bmp_def R)
qed

theorem prs_roundtrip_no_filter_witness:
  "legal_dims 4 1 RGB
   \<and> length [0,0,0, 1,1,1, 2,2,2, 3,3,3 :: byte] = 4 * 1 * (if RGB = RGBA then 4 else 3)
   \<and> (\<exists>fbytes fmt.
         pack (fst (PrsWriter 4 1 RGB 0 [0,0,0, 1,1,1, 2,2,2, 3,3,3]))
              (snd (PrsWriter 4 1 RGB 0 [0,0,0, 1,1,1, 2,2,2, 3,3,3])) = Inr fbytes
         \<and> convert_prs_to_bmp fbytes = Inr ([0,0,0, 1,1,1, 2,2,2, 3,3,3], fmt))"
proof -
  have l: "legal_dims 4 1 RGB"
    by (simp add: legal_dims_def)
  have n: "length [0,0,0, 1,1,1, 2,2,2, 3,3,3 :: byte] = 4 * 1 * (if RGB = RGBA then 4 else 3)"
    by simp
  from prs_roundtrip_no_filter [OF l n] l n show ?thesis
    by blast
qed

lemma pack_closed_form:
  assumes "pack m inp = Inr out"
  shows "out = prs_file m (lit_groups inp) \<and> length (lit_groups inp) < 4294967296"
proof -
  have c: "flag m < 256" "bpp m div 8 < 256" "width m < 65536" "height m < 65536"
    using assms by (auto simp: pack_def pack_H_def split: if_splits)
  have "length (lit_groups inp) < 4294967296"
  proof (rule ccontr)
    assume big: "\<not> length (lit_groups inp) < 4294967296"
    let ?s0 = "\<lparr>input_index = 0, control = 0, mask = 1, control_buffer = [],
      written = prs_header m, hash_table = Map.empty\<rparr>"
    have "\<exists>s'. pack_loop inp ?s0 = Inr s' \<and> control s' < 256 \<and>
           pending s' = written ?s0 @ lit_groups (control_buffer ?s0 @ drop (input_index ?s0) inp)"
      by (rule pack_loop_literals [where k = 0]) simp_all
    then obtain s' where s': "pack_loop inp ?s0 = Inr s'" "control s' < 256"
      "pending s' = prs_header m @ lit_groups inp"
      by auto
    have fin: "(if mask s' \<noteq> 1 \<or> control_buffer s' \<noteq> [] then
                (if control s' < 256
                 then Inr (written s' @ [of_nat (control s')] @ control_buffer s')
                 else Inl ByteRangeError)
              else Inr (written s')) = Inr (pending s')"
      using s'(2) by (simp add: pending_def)
    have len: "length (pending s') - 16 = length (lit_groups inp)"
      by (simp add: s'(3) length_prs_header)
    have pI: "pack_I (length (lit_groups inp)) = Inl StructError"
      using big by (simp add: pack_I_def)
    have "pack m inp = Inl StructError"
      by (simp only: pack_unfold [OF c] s'(1) sum.case fin len pI)
    with assms show False by simp
  qed
  with c assms show ?thesis
    by (simp add: pack_literals)
qed

text \<open>
  C7. Header patching: whenever \<open>pack\<close> completes, the four bytes at offset 4 of the file
  it produced hold, little-endian, the number of bytes that follow the 16-byte header.
\<close>

theorem pack_patches_packed_size:
  assumes "pack m inp = Inr out"
  shows "16 \<le> length out \<and> unpack_I out 4 = Inr (length out - 16)"
proof -
  from pack_closed_form [OF assms]
  have out: "out = prs_file m (lit_groups inp)" and sz: "length (lit_groups inp) < 4294967296"
    by simp_all
  have "length out - 16 = length (lit_groups inp)" "16 \<le> length out"
    by (simp_all add: out prs_file_def Let_def)
  moreover have "unpack_I out 4 = Inr (length (lit_groups inp))"
    using le32_value [OF sz] by (simp add: out prs_file_def Let_def unpack_I_def)
  ultimately show ?thesis by simp
qed

lemma pack_example:
  "pack (fst (PrsWriter 4 1 RGB 0 [0,0,0, 1,1,1, 2,2,2, 3,3,3]))
        (snd (PrsWriter 4 1 RGB 0 [0,0,0, 1,1,1, 2,2,2, 3,3,3]))
   = Inr [0x59, 0x42, 0, 3, 14, 0, 0, 0, 0, 0, 0, 0, 4, 0, 1, 0,
         0, 0,0,0,1,1,1,2,2, 0, 2,3,3,3]"
  by (simp add: PrsWriter_def pack_def pack_H_def pack_I_def pack_step_def find_longest_match_def
      hash_def emit_token_def get_byte_def flush_group_def register_positions_def Let_def
      replicate_8)

theorem pack_patches_packed_size_witness:
  "pack (fst (PrsWriter 4 1 RGB 0 [0,0,0, 1,1,1, 2,2,2, 3,3,3]))
        (snd (PrsWriter 4 1 RGB 0 [0,0,0, 1,1,1, 2,2,2, 3,3,3]))
   = Inr [0x59, 0x42, 0, 3, 14, 0, 0, 0, 0, 0, 0, 0, 4, 0, 1, 0,
         0, 0,0,0,1,1,1,2,2, 0, 2,3,3,3]
   \<and> unpack_I [0x59, 0x42, 0, 3, 14, 0, 0, 0, 0, 0, 0, 0, 4, 0, 1, 0,
         0, 0,0,0,1,1,1,2,2, 0, 2,3,3,3] 4 = Inr 14"
  using pack_patches_packed_size [OF pack_example] pack_example by simp

text \<open>
  C5. Decoded-length invariant. The raw run does not keep it: for a 1x1 RGB image
  (3 bytes) whose payload is the control byte \<open>0x80\<close>, the byte \<open>0x03\<close> (a raw run of
  0 + 9 bytes) and nine bytes, the decoder returns a buffer of 9 bytes.
\<close>

theorem raw_run_resizes_output:
  "convert_prs_to_bmp
     ([0x59, 0x42, 0, 3, 11, 0, 0, 0, 0, 0, 0, 0, 1, 0, 1, 0]
      @ [0x80, 0x03, 1, 2, 3, 4, 5, 6, 7, 8, 9])
   = Inr ([1, 2, 3, 4, 5, 6, 7, 8, 9], RGB)"
  by (simp add: convert_prs_to_bmp_def read_prs_meta_data_def unpack_H_def unpack_I_def
      unpack_def unpack_start_def decode_token_def advance_bit_def match_token_def raw_run_def
      read_byte_def Let_def)

section \<open>The invalid-offset error\<close>

text \<open>
  The back-references the loop decodes from a state on, each as the pair of its effective
  back-distance \<open>D = shift + 1\<close> and the output cursor \<open>dst\<close> at which it is to be
  applied, up to and including the first one the decoder rejects.
\<close>

function backrefs :: "decode_state \<Rightarrow> (nat \<times> nat) list" where
  "backrefs s =
     (if remaining s > 0 \<and> dst s < length (outbuf s) then
        (case decode_token s of
           Inl e \<Rightarrow> []
         | Inr (Stop s1) \<Rightarrow> []
         | Inr (Next s1) \<Rightarrow> backrefs s1
         | Inr (Copy s1 shift len) \<Rightarrow>
             (shift + 1, dst s1) #
             (case copy_match s1 shift len of
                Inl e \<Rightarrow> []
              | Inr s2 \<Rightarrow> backrefs s2))
      else [])"
  by pat_completeness auto
termination
proof (relation "measure (\<lambda>s. length (stream s))")
  show "wf (measure (\<lambda>s. length (stream s)))" by simp
next
  fix s :: decode_state and x s1
  assume "decode_token s = Inr x" "x = Next s1"
  then show "(s1, s) \<in> measure (\<lambda>s. length (stream s))"
    using decode_token_stream [of s x] by simp
next
  fix s :: decode_state and x s1 shift len s2
  assume "decode_token s = Inr x" "x = Copy s1 shift len" "copy_match s1 shift len = Inr s2"
  then show "(s2, s) \<in> measure (\<lambda>s. length (stream s))"
    using decode_token_stream [of s x] copy_match_stream [of s1 shift len s2] by simp
qed

declare backrefs.simps [simp del]

declare unpack_loop.simps [simp del]

lemma read_byte_error: "read_byte fl = Inl e \<Longrightarrow> e = IndexError"
  by (simp add: read_byte_def split: list.splits)

lemma advance_bit_error: "advance_bit s = Inl e \<Longrightarrow> e = IndexError"
  by (auto simp: advance_bit_def Let_def split: if_splits sum.splits dest: read_byte_error)

lemma literal_error: "literal s = Inl e \<Longrightarrow> e = IndexError"
  by (auto simp: literal_def split: if_splits sum.splits dest: read_byte_error)

lemma match_token_error: "match_token s = Inl e \<Longrightarrow> e = IndexError"
  unfolding match_token_def Let_def
  by (auto split: if_splits sum.splits prod.splits dest: read_byte_error)

lemma decode_token_error: "decode_token s = Inl e \<Longrightarrow> e = IndexError"
  by (auto simp: decode_token_def split: if_splits sum.splits
      dest: advance_bit_error literal_error match_token_error)

lemma copy_match_error:
  "copy_match s shift len = Inl e \<longleftrightarrow> e = InvalidOffset \<and> dst s < shift + 1"
  by (auto simp: copy_match_def Let_def)

lemma unpack_loop_done:
  "\<not> (0 < remaining s \<and> dst s < length (outbuf s)) \<Longrightarrow> unpack_loop s = Inr s"
  by (subst unpack_loop.simps) auto

lemma unpack_loop_step:
  "0 < remaining s \<Longrightarrow> dst s < length (outbuf s) \<Longrightarrow>
   unpack_loop s =
     (case decode_token s of
        Inl e \<Rightarrow> Inl e
      | Inr (Stop s1) \<Rightarrow> Inr s1
      | Inr (Next s1) \<Rightarrow> unpack_loop s1
      | Inr (Copy s1 shift len) \<Rightarrow>
          (case copy_match s1 shift len of Inl e \<Rightarrow> Inl e | Inr s2 \<Rightarrow> unpack_loop s2))"
  by (subst unpack_loop.simps) simp

lemma backrefs_done:
  "\<not> (0 < remaining s \<and> dst s < length (outbuf s)) \<Longrightarrow> backrefs s = []"
  by (subst backrefs.simps) auto

lemma backrefs_step:
  "0 < remaining s \<Longrightarrow> dst s < length (outbuf s) \<Longrightarrow>
   backrefs s =
     (case decode_token s of
        Inl e \<Rightarrow> []
      | Inr (Stop s1) \<Rightarrow> []
      | Inr (Next s1) \<Rightarrow> backrefs s1
      | Inr (Copy s1 shift len) \<Rightarrow>
          (shift + 1, dst s1) #
          (case copy_match s1 shift len of Inl e \<Rightarrow> [] | Inr s2 \<Rightarrow> backrefs s2))"
  by (subst backrefs.simps) simp

lemma unpack_loop_invalid_offset:
  "unpack_loop s = Inl InvalidOffset \<longleftrightarrow> (\<exists>(D, d) \<in> set (backrefs s). d < D)"
proof (induction s rule: unpack_loop.induct)
  case (1 s)
  show ?case
  proof (cases "0 < remaining s \<and> dst s < length (outbuf s)")
    case False
    then show ?thesis
      by (simp add: unpack_loop_done backrefs_done)
  next
    case True
    then have c: "0 < remaining s" "dst s < length (outbuf s)" by simp_all
    note unf = unpack_loop_step [OF c] backrefs_step [OF c]
    show ?thesis
    proof (cases "decode_token s")
      case (Inl e)
      with decode_token_error [OF Inl] show ?thesis
        by (simp add: unf)
    next
      case (Inr a)
      show ?thesis
      proof (cases a)
        case (Stop s1)
        with Inr show ?thesis
          by (simp add: unf)
      next
        case (Next s1)
        with c Inr 1(1) [of a s1] show ?thesis
          by (simp add: unf)
      next
        case (Copy s1 shift len)
        show ?thesis
        proof (cases "copy_match s1 shift len")
          case (Inl e)
          then have "e = InvalidOffset" "dst s1 < shift + 1"
            by (simp_all add: copy_match_error)
          with Inr Copy Inl show ?thesis
            by (simp add: unf)
        next
          case r: (Inr s2)
          have "\<not> dst s1 < shift + 1"
            using r by (auto simp: copy_match_def Let_def split: if_splits)
          with c Inr Copy r 1(2) [of a s1 shift len s2] show ?thesis
            by (simp add: unf)
        qed
      qed
    qed
  qed
qed


lemma unpack_loop_errors:
  "unpack_loop s = Inl e \<Longrightarrow> e = IndexError \<or> e = InvalidOffset"
proof (induction s rule: unpack_loop.induct)
  case (1 s)
  show ?case
  proof (cases "0 < remaining s \<and> dst s < length (outbuf s)")
    case False
    with 1(3) show ?thesis
      by (simp add: unpack_loop_done)
  next
    case True
    then have c: "0 < remaining s" "dst s < length (outbuf s)" by simp_all
    note unf = unpack_loop_step [OF c]
    show ?thesis
    proof (cases "decode_token s")
      case (Inl e')
      with decode_token_error [OF Inl] 1(3) show ?thesis
        by (simp add: unf)
    next
      case (Inr a)
      show ?thesis
      proof (cases a)
        case (Stop s1)
        with Inr 1(3) show ?thesis
          by (simp add: unf)
      next
        case (Next s1)
        with c Inr 1(1) [of a s1] 1(3) show ?thesis
          by (simp add: unf)
      next
        case (Copy s1 shift len)
        show ?thesis
        proof (cases "copy_match s1 shift len")
          case (Inl e')
          then have "e' = InvalidOffset"
            by (simp add: copy_match_error)
          with Inr Copy Inl 1(3) show ?thesis
            by (simp add: unf)
        next
          case r: (Inr s2)
          with c Inr Copy 1(2) [of a s1 shift len s2] 1(3) show ?thesis
            by (simp add: unf)
        qed
      qed
    qed
  qed
qed

lemma is_dummy_alpha_channel_error: "is_dummy_alpha_channel buf = Inl e \<Longrightarrow> e = IndexError"
  by (auto simp: is_dummy_alpha_channel_def Let_def split: if_splits)

lemma unpack_invalid_offset:
  "unpack m fbytes = Inl InvalidOffset \<longleftrightarrow>
   unpack_loop (unpack_start m fbytes) = Inl InvalidOffset"
proof (cases "unpack_loop (unpack_start m fbytes)")
  case (Inl e)
  then show ?thesis by (simp add: unpack_def)
next
  case (Inr s)
  then show ?thesis
    by (auto simp: unpack_def Let_def split: sum.splits dest: is_dummy_alpha_channel_error)
qed

text \<open>
  C6. The decoder fails with the invalid-offset error if and only if one of the
  back-references it decodes has an effective back-distance \<open>D = shift + 1\<close> greater than
  the output cursor \<open>dst\<close>; when every decoded back-reference has \<open>D \<le> dst\<close> the loop
  ends without that error (it returns, or stops on the end of the file).
\<close>

theorem invalid_offset_iff:
  "(unpack m fbytes = Inl InvalidOffset
      \<longleftrightarrow> (\<exists>(D, d) \<in> set (backrefs (unpack_start m fbytes)). d < D))
   \<and> ((\<forall>(D, d) \<in> set (backrefs (unpack_start m fbytes)). D \<le> d)
      \<longrightarrow> unpack m fbytes \<noteq> Inl InvalidOffset
          \<and> ((\<exists>s. unpack_loop (unpack_start m fbytes) = Inr s)
               \<or> unpack_loop (unpack_start m fbytes) = Inl IndexError))"
proof -
  let ?s0 = "unpack_start m fbytes"
  have iff: "unpack m fbytes = Inl InvalidOffset \<longleftrightarrow> (\<exists>(D, d) \<in> set (backrefs ?s0). d < D)"
    by (simp only: unpack_invalid_offset unpack_loop_invalid_offset)
  have "unpack m fbytes \<noteq> Inl InvalidOffset
        \<and> ((\<exists>s. unpack_loop ?s0 = Inr s) \<or> unpack_loop ?s0 = Inl IndexError)"
    if ok: "\<forall>(D, d) \<in> set (backrefs ?s0). D \<le> d"
  proof -
    from ok have n: "\<not> (\<exists>(D, d) \<in> set (backrefs ?s0). d < D)"
      by (auto simp: not_less)
    then have u: "unpack m fbytes \<noteq> Inl InvalidOffset" and l: "unpack_loop ?s0 \<noteq> Inl InvalidOffset"
      by (simp_all only: iff unpack_loop_invalid_offset not_False_eq_True)
    show ?thesis
    proof (cases "unpack_loop ?s0")
      case (Inl e)
      with unpack_loop_errors [OF Inl] l u show ?thesis by auto
    next
      case (Inr s)
      with u show ?thesis by simp
    qed
  qed
  with iff show ?thesis by blast
qed

lemma backrefs_bad:
  "backrefs (unpack_start \<lparr>width = 1, height = 1, bpp = 24, flag = 0, packed_size = 3\<rparr>
     ([0x59, 0x42, 0, 3, 3, 0, 0, 0, 0, 0, 0, 0, 1, 0, 1, 0] @ [0x80, 0x00, 0x00])) = [(1, 0)]"
  by (simp add: backrefs.simps unpack_start_def decode_token_def advance_bit_def match_token_def
      copy_match_def read_byte_def Let_def)

lemma backrefs_good:
  "backrefs (unpack_start \<lparr>width = 1, height = 1, bpp = 24, flag = 0, packed_size = 3\<rparr>
     ([0x59, 0x42, 0, 3, 3, 0, 0, 0, 0, 0, 0, 0, 1, 0, 1, 0] @ [0x40, 0x41, 0x00])) = [(1, 1)]"
  by (simp add: backrefs.simps unpack_start_def decode_token_def advance_bit_def match_token_def
      literal_def copy_match_def read_byte_def Let_def)

theorem invalid_offset_iff_witness:
  "backrefs (unpack_start \<lparr>width = 1, height = 1, bpp = 24, flag = 0, packed_size = 3\<rparr>
        ([0x59, 0x42, 0, 3, 3, 0, 0, 0, 0, 0, 0, 0, 1, 0, 1, 0] @ [0x80, 0x00, 0x00])) = [(1, 0)]
   \<and> unpack \<lparr>width = 1, height = 1, bpp = 24, flag = 0, packed_size = 3\<rparr>
        ([0x59, 0x42, 0, 3, 3, 0, 0, 0, 0, 0, 0, 0, 1, 0, 1, 0] @ [0x80, 0x00, 0x00])
       = Inl InvalidOffset
   \<and> backrefs (unpack_start \<lparr>width = 1, height = 1, bpp = 24, flag = 0, packed_size = 3\<rparr>
        ([0x59, 0x42, 0, 3, 3, 0, 0, 0, 0, 0, 0, 0, 1, 0, 1, 0] @ [0x40, 0x41, 0x00])) = [(1, 1)]
   \<and> unpack \<lparr>width = 1, height = 1, bpp = 24, flag = 0, packed_size = 3\<rparr>
        ([0x59, 0x42, 0, 3, 3, 0, 0, 0, 0, 0, 0, 0, 1, 0, 1, 0] @ [0x40, 0x41, 0x00])
       \<noteq> Inl InvalidOffset"
  using invalid_offset_iff [of "\<lparr>width = 1, height = 1, bpp = 24, flag = 0, packed_size = 3\<rparr>"
      "[0x59, 0x42, 0, 3, 3, 0, 0, 0, 0, 0, 0, 0, 1, 0, 1, 0] @ [0x80, 0x00, 0x00]"]
    invalid_offset_iff [of "\<lparr>width = 1, height = 1, bpp = 24, flag = 0, packed_size = 3\<rparr>"
      "[0x59, 0x42, 0, 3, 3, 0, 0, 0, 0, 0, 0, 0, 1, 0, 1, 0] @ [0x40, 0x41, 0x00]"]
  unfolding backrefs_bad backrefs_good by simp

section \<open>Branches of the decoder\<close>

text \<open>
  The claim C3 as stated fails on the code: with the control bit clear and the next byte
  \<open>0x03\<close> (mode 3, length 0) the decoder stores that one byte as a literal and leaves
  the nine bytes after it in the file; it does not run a raw run of nine bytes.
\<close>

theorem clear_bit_raw_run_counterexample:
  "decode_token \<lparr>stream = [0x03, 1, 2, 3, 4, 5, 6, 7, 8, 9], remaining = 10, dst = 0,
       bit_r = 0x80, ctl = 0, outbuf = [0, 0, 0, 0, 0, 0, 0, 0, 0, 0, 0, 0]\<rparr>
     = Inr (Next \<lparr>stream = [1, 2, 3, 4, 5, 6, 7, 8, 9], remaining = 9, dst = 1,
                    bit_r = 0x40, ctl = 0, outbuf = [3, 0, 0, 0, 0, 0, 0, 0, 0, 0, 0, 0]\<rparr>)
   \<and> (0::nat) AND 0x40 = 0 \<and> (3::nat) AND 3 = 3"
  by (simp add: decode_token_def advance_bit_def literal_def read_byte_def Let_def)

text \<open>
  C3 (amended). Decoder branch structure: with the control bit clear the decoder stores
  one byte of the file at \<open>dst\<close>. With the control bit set and bit 7 of the byte \<open>b\<close>
  read clear, \<open>mode = b & 3\<close> and \<open>length = b >> 2\<close>: mode 3 is a raw run that copies
  the next \<open>length + 9\<close> bytes of the file to the output, any other mode is a short
  back-reference of back-distance \<open>(b >> 2) + 1\<close> and copy length \<open>(b & 3) + 2\<close>. The
  raw run occurs only in the branch of the set bit.
\<close>

theorem decoder_branch_structure:
  assumes "advance_bit s = Inr s1" and "0 < remaining s1" and "stream s1 = c # rest"
  shows
    "(ctl s1 AND bit_r s1 = 0 \<and> dst s1 < length (outbuf s1) \<longrightarrow>
        decode_token s =
          Inr (Next (s1\<lparr>stream := rest, outbuf := (outbuf s1)[dst s1 := c],
                        dst := dst s1 + 1, remaining := remaining s1 - 1\<rparr>)))
     \<and> (ctl s1 AND bit_r s1 \<noteq> 0 \<and> unat c AND 0x80 = 0 \<and> unat c AND 3 = 3 \<longrightarrow>
        decode_token s =
          Inr (Next (s1\<lparr>stream := drop (drop_bit 2 (unat c) + 9) rest,
                        outbuf := take (dst s1) (outbuf s1)
                                  @ take (drop_bit 2 (unat c) + 9) rest
                                  @ drop (dst s1 + (drop_bit 2 (unat c) + 9)) (outbuf s1),
                        dst := dst s1 + length (take (drop_bit 2 (unat c) + 9) rest),
                        remaining := remaining s1 - 1
                                     - int (length (take (drop_bit 2 (unat c) + 9) rest))\<rparr>)))
     \<and> (ctl s1 AND bit_r s1 \<noteq> 0 \<and> unat c AND 0x80 = 0 \<and> unat c AND 3 \<noteq> 3 \<longrightarrow>
        decode_token s =
          Inr (Copy (s1\<lparr>stream := rest, remaining := remaining s1 - 1\<rparr>)
                 (drop_bit 2 (unat c)) ((unat c AND 3) + 2))
        \<and> copy_match (s1\<lparr>stream := rest, remaining := remaining s1 - 1\<rparr>)
              (drop_bit 2 (unat c)) ((unat c AND 3) + 2) =
            (if dst s1 < drop_bit 2 (unat c) + 1 then Inl InvalidOffset
             else
               let n = min (int ((unat c AND 3) + 2)) (int (length (outbuf s1)) - int (dst s1))
               in Inr (s1\<lparr>stream := rest, remaining := remaining s1 - 1,
                         outbuf := fold (\<lambda>i out. out[dst s1 + i :=
                                            out ! (dst s1 - (drop_bit 2 (unat c) + 1) + i)])
                                     [0..<nat n] (outbuf s1),
                         dst := nat (int (dst s1) + n)\<rparr>)))"
  using assms
  by (simp add: decode_token_def literal_def match_token_def raw_run_def copy_match_def
      read_byte_def Let_def)

theorem decoder_branch_structure_witness:
  "advance_bit \<lparr>stream = [0x03, 1, 2, 3, 4, 5, 6, 7, 8, 9], remaining = 10, dst = 0,
       bit_r = 0x80, ctl = 0x40, outbuf = [0, 0, 0, 0, 0, 0, 0, 0, 0, 0, 0, 0]\<rparr>
     = Inr \<lparr>stream = [0x03, 1, 2, 3, 4, 5, 6, 7, 8, 9], remaining = 10, dst = 0,
            bit_r = 0x40, ctl = 0x40, outbuf = [0, 0, 0, 0, 0, 0, 0, 0, 0, 0, 0, 0]\<rparr>
   \<and> (0x40::nat) AND 0x40 \<noteq> 0 \<and> unat (3::byte) AND 0x80 = 0 \<and> unat (3::byte) AND 3 = 3
   \<and> decode_token \<lparr>stream = [0x03, 1, 2, 3, 4, 5, 6, 7, 8, 9], remaining = 10, dst = 0,
       bit_r = 0x80, ctl = 0x40, outbuf = [0, 0, 0, 0, 0, 0, 0, 0, 0, 0, 0, 0]\<rparr>
     = Inr (Next \<lparr>stream = [], remaining = 0, dst = 9,
            bit_r = 0x40, ctl = 0x40, outbuf = [1, 2, 3, 4, 5, 6, 7, 8, 9, 0, 0, 0]\<rparr>)"
proof -
  let ?s = "\<lparr>stream = [0x03, 1, 2, 3, 4, 5, 6, 7, 8, 9], remaining = 10, dst = 0,
       bit_r = 0x80, ctl = 0x40, outbuf = [0, 0, 0, 0, 0, 0, 0, 0, 0, 0, 0, 0 :: byte]\<rparr>"
  let ?s1 = "\<lparr>stream = [0x03, 1, 2, 3, 4, 5, 6, 7, 8, 9], remaining = 10, dst = 0,
       bit_r = 0x40, ctl = 0x40, outbuf = [0, 0, 0, 0, 0, 0, 0, 0, 0, 0, 0, 0 :: byte]\<rparr>"
  have a: "advance_bit ?s = Inr ?s1"
    by (simp add: advance_bit_def)
  have r: "0 < remaining ?s1" by simp
  have st: "stream ?s1 = 3 # [1, 2, 3, 4, 5, 6, 7, 8, 9]" by simp
  from decoder_branch_structure [OF a r st] a show ?thesis
    by simp
qed

section \<open>Order of the control bits\<close>

text \<open>
  The claim C2 as stated fails on the decoder: with the control byte \<open>0x01\<close>, whose bit
  \<open>1 << 0\<close> is set, the first token of the group is decoded as a literal.
\<close>

theorem control_bit_lsb_counterexample:
  "decode_token \<lparr>stream = [0x01, 0x41, 0x42], remaining = 3, dst = 0, bit_r = 0, ctl = 0,
       outbuf = [0, 0]\<rparr>
     = Inr (Next \<lparr>stream = [0x42], remaining = 1, dst = 1, bit_r = 0x80, ctl = 0x01,
                    outbuf = [0x41, 0]\<rparr>)
   \<and> (0x01::nat) AND push_bit 0 1 \<noteq> 0"
  by (simp add: decode_token_def advance_bit_def literal_def read_byte_def Let_def)

lemma drop_bit_0x80:
  assumes "j < 8"
  shows "drop_bit j (0x80::nat) \<noteq> 0"
proof -
  from assms have "j \<in> {0, 1, 2, 3, 4, 5, 6, 7}" by auto
  then show ?thesis
    by (auto simp: drop_bit_eq_div)
qed

lemma advance_bit_inside_group:
  assumes "0 < j" "j < 8" "bit_r s = drop_bit (j - 1) 0x80"
  shows "advance_bit s = Inr (s\<lparr>bit_r := drop_bit j 0x80\<rparr>)"
proof -
  from assms(1) have "drop_bit 1 (drop_bit (j - 1) (0x80::nat)) = drop_bit j 0x80"
    by (simp add: drop_bit_drop_bit)
  with assms drop_bit_0x80 [OF assms(2)] show ?thesis
    by (simp add: advance_bit_def Let_def)
qed

lemma advance_bit_new_group:
  assumes "bit_r s \<le> 1" "stream s = c # rest"
  shows "advance_bit s =
    Inr (s\<lparr>stream := rest, ctl := unat c, remaining := remaining s - 1, bit_r := 0x80\<rparr>)"
proof -
  from assms(1) have "drop_bit 1 (bit_r s) = 0"
    by (rule drop_bit_le_1)
  with assms(2) show ?thesis
    by (simp add: advance_bit_def read_byte_def)
qed

lemma literal_keeps_bit:
  "literal s = Inr a \<Longrightarrow> bit_r (action_state a) = bit_r s \<and> ctl (action_state a) = ctl s"
  by (auto simp: literal_def split: sum.splits if_splits)

lemma match_token_keeps_bit:
  "match_token s = Inr a \<Longrightarrow> bit_r (action_state a) = bit_r s \<and> ctl (action_state a) = ctl s"
  unfolding match_token_def read_byte_def Let_def
  by (cases "stream s") (auto simp: raw_run_def Let_def split: if_splits list.splits)

lemma copy_match_keeps_bit:
  "copy_match s shift len = Inr s2 \<Longrightarrow> bit_r s2 = bit_r s \<and> ctl s2 = ctl s"
  by (auto simp: copy_match_def Let_def split: if_splits)

lemma flush_group_mask:
  assumes "j < 7" "mask s = push_bit j 1"
  shows "flush_group s = Inr (s\<lparr>mask := push_bit (j + 1) 1\<rparr>)"
proof -
  from assms(1) have "j \<in> {0, 1, 2, 3, 4, 5, 6}" by auto
  then have "push_bit 1 (push_bit j (1::nat)) \<noteq> 0x100"
    by (auto simp: push_bit_eq_mult)
  moreover have "push_bit 1 (push_bit j (1::nat)) = push_bit (j + 1) 1"
    by (simp add: push_bit_eq_mult)
  ultimately show ?thesis
    using assms(2) by (simp add: flush_group_def Let_def)
qed

lemma flush_group_full:
  assumes "mask s = push_bit 7 1" "control s < 256"
  shows "flush_group s =
    Inr (s\<lparr>written := written s @ [of_nat (control s)] @ control_buffer s,
           control_buffer := [], control := 0, mask := 1\<rparr>)"
  using assms by (simp add: flush_group_def Let_def push_bit_eq_mult)

lemma emit_token_control:
  assumes "emit_token inp s match_length match_offset = Inr s1"
  shows "mask s1 = mask s
     \<and> control s1 = (if match_length < 3 then control s else control s OR mask s)"
  using assms unfolding emit_token_def Let_def
  by (auto split: if_splits sum.splits)

text \<open>
  C2 (amended). Control-stream bit order. In the decoder, token 0 of a group loads the
  control byte \<open>C\<close> and token \<open>j\<close> (\<open>j < 8\<close>) consults bit \<open>0x80 >> j\<close> of \<open>C\<close>,
  most significant bit first; the token is a single literal iff that bit is 0 and goes
  to the match-or-raw-run branch iff it is 1; the tokens leave mask and control byte as
  they are. In the encoder, token \<open>j\<close> of a group works with the mask \<open>1 << j\<close>, least
  significant bit first: a literal leaves the control byte as it is, a match sets the
  bit of the mask, and after the eighth token the group is written and the mask restarts
  at \<open>1 << 0\<close>.
\<close>

theorem control_bit_order:
  "(bit_r s \<le> 1 \<and> stream s = c # rest \<longrightarrow>
      decode_token s =
        (let s1 = s\<lparr>stream := rest, ctl := unat c, remaining := remaining s - 1,
                     bit_r := drop_bit 0 0x80\<rparr>
         in if remaining s1 \<le> 0 then Inr (Stop s1)
            else if unat c AND drop_bit 0 0x80 = 0 then literal s1 else match_token s1))
   \<and> (0 < j \<and> j < 8 \<and> bit_r s = drop_bit (j - 1) 0x80 \<longrightarrow>
      decode_token s =
        (let s1 = s\<lparr>bit_r := drop_bit j 0x80\<rparr>
         in if remaining s \<le> 0 then Inr (Stop s1)
            else if ctl s AND drop_bit j 0x80 = 0 then literal s1 else match_token s1))
   \<and> (\<forall>a. literal s = Inr a \<or> match_token s = Inr a \<longrightarrow>
          bit_r (action_state a) = bit_r s \<and> ctl (action_state a) = ctl s)
   \<and> (\<forall>s2. copy_match s shift len = Inr s2 \<longrightarrow> bit_r s2 = bit_r s \<and> ctl s2 = ctl s)
   \<and> (\<forall>p1. emit_token inp p match_length match_offset = Inr p1 \<longrightarrow>
          mask p1 = mask p
          \<and> control p1 = (if match_length < 3 then control p else control p OR mask p))
   \<and> (j < 7 \<and> mask p = push_bit j 1 \<longrightarrow>
          flush_group p = Inr (p\<lparr>mask := push_bit (j + 1) 1\<rparr>))
   \<and> (mask p = push_bit 7 1 \<and> control p < 256 \<longrightarrow>
          flush_group p =
            Inr (p\<lparr>written := written p @ [of_nat (control p)] @ control_buffer p,
                   control_buffer := [], control := 0, mask := push_bit 0 1\<rparr>))"
proof (intro conjI impI allI)
  assume "bit_r s \<le> 1 \<and> stream s = c # rest"
  then have a: "advance_bit s =
      Inr (s\<lparr>stream := rest, ctl := unat c, remaining := remaining s - 1, bit_r := 0x80\<rparr>)"
    by (intro advance_bit_new_group) simp_all
  show "decode_token s =
        (let s1 = s\<lparr>stream := rest, ctl := unat c, remaining := remaining s - 1,
                     bit_r := drop_bit 0 0x80\<rparr>
         in if remaining s1 \<le> 0 then Inr (Stop s1)
            else if unat c AND drop_bit 0 0x80 = 0 then literal s1 else match_token s1)"
    by (simp add: decode_token_def a)
next
  assume "0 < j \<and> j < 8 \<and> bit_r s = drop_bit (j - 1) 0x80"
  then have a: "advance_bit s = Inr (s\<lparr>bit_r := drop_bit j 0x80\<rparr>)"
    by (intro advance_bit_inside_group) simp_all
  show "decode_token s =
        (let s1 = s\<lparr>bit_r := drop_bit j 0x80\<rparr>
         in if remaining s \<le> 0 then Inr (Stop s1)
            else if ctl s AND drop_bit j 0x80 = 0 then literal s1 else match_token s1)"
    by (simp add: decode_token_def a)
next
  fix a
  assume "literal s = Inr a \<or> match_token s = Inr a"
  then show "bit_r (action_state a) = bit_r s" "ctl (action_state a) = ctl s"
    using literal_keeps_bit [of s a] match_token_keeps_bit [of s a] by auto
next
  fix s2
  assume "copy_match s shift len = Inr s2"
  then show "bit_r s2 = bit_r s" "ctl s2 = ctl s"
    by (simp_all add: copy_match_keeps_bit)
next
  fix p1
  assume "emit_token inp p match_length match_offset = Inr p1"
  then show "mask p1 = mask p"
    "control p1 = (if match_length < 3 then control p else control p OR mask p)"
    using emit_token_control [of inp p match_length match_offset p1] by simp_all
next
  assume "j < 7 \<and> mask p = push_bit j 1"
  then show "flush_group p = Inr (p\<lparr>mask := push_bit (j + 1) 1\<rparr>)"
    by (intro flush_group_mask) simp_all
next
  assume "mask p = push_bit 7 1 \<and> control p < 256"
  then show "flush_group p =
            Inr (p\<lparr>written := written p @ [of_nat (control p)] @ control_buffer p,
                   control_buffer := [], control := 0, mask := push_bit 0 1\<rparr>)"
    using flush_group_full [of p] by simp
qed


theorem control_bit_order_witness:
  "bit_r \<lparr>stream = [0x40, 0x41, 0x00], remaining = 3, dst = 0, bit_r = 0, ctl = 0,
          outbuf = [0, 0, 0]\<rparr> \<le> 1
   \<and> decode_token \<lparr>stream = [0x40, 0x41, 0x00], remaining = 3, dst = 0, bit_r = 0, ctl = 0,
          outbuf = [0, 0, 0]\<rparr>
       = Inr (Next \<lparr>stream = [0x00], remaining = 1, dst = 1, bit_r = 0x80, ctl = 0x40,
                      outbuf = [0x41, 0, 0]\<rparr>)
   \<and> (0::nat) < 1 \<and> (1::nat) < 8
   \<and> decode_token \<lparr>stream = [0x00], remaining = 1, dst = 1, bit_r = 0x80, ctl = 0x40,
          outbuf = [0x41, 0, 0]\<rparr>
       = Inr (Copy \<lparr>stream = [], remaining = 0, dst = 1, bit_r = 0x40, ctl = 0x40,
                      outbuf = [0x41, 0, 0]\<rparr> 0 2)
   \<and> (1::nat) < 7
   \<and> flush_group \<lparr>input_index = 4, control = 2, mask = 2, control_buffer = [7, 0x89, 0x2B],
          written = [], hash_table = Map.empty\<rparr>
       = Inr \<lparr>input_index = 4, control = 2, mask = 4, control_buffer = [7, 0x89, 0x2B],
              written = [], hash_table = Map.empty\<rparr>
   \<and> flush_group \<lparr>input_index = 8, control = 2, mask = 0x80,
          control_buffer = [1, 2, 3, 4, 5, 6, 7, 8], written = [], hash_table = Map.empty\<rparr>
       = Inr \<lparr>input_index = 8, control = 0, mask = 1, control_buffer = [],
              written = [2, 1, 2, 3, 4, 5, 6, 7, 8], hash_table = Map.empty\<rparr>"
proof -
  let ?sa = "\<lparr>stream = [0x40, 0x41, 0x00], remaining = 3, dst = 0, bit_r = 0, ctl = 0,
          outbuf = [0, 0, 0 :: byte]\<rparr>"
  let ?sb = "\<lparr>stream = [0x00], remaining = 1, dst = 1, bit_r = 0x80, ctl = 0x40,
          outbuf = [0x41, 0, 0 :: byte]\<rparr>"
  let ?pa = "\<lparr>input_index = 4, control = 2, mask = 2, control_buffer = [7, 0x89, 0x2B :: byte],
          written = [], hash_table = Map.empty\<rparr>"
  let ?pb = "\<lparr>input_index = 8, control = 2, mask = 0x80,
          control_buffer = [1, 2, 3, 4, 5, 6, 7, 8 :: byte], written = [], hash_table = Map.empty\<rparr>"
  have a: "decode_token ?sa = Inr (Next \<lparr>stream = [0x00], remaining = 1, dst = 1, bit_r = 0x80,
      ctl = 0x40, outbuf = [0x41, 0, 0]\<rparr>)"
    using control_bit_order [where s = ?sa and c = "0x40" and rest = "[0x41, 0x00]"]
    by (simp add: literal_def read_byte_def)
  have b: "decode_token ?sb = Inr (Copy \<lparr>stream = [], remaining = 0, dst = 1, bit_r = 0x40,
      ctl = 0x40, outbuf = [0x41, 0, 0]\<rparr> 0 2)"
    using control_bit_order [where s = ?sb and j = 1]
    by (simp add: match_token_def read_byte_def)
  have c: "flush_group ?pa = Inr \<lparr>input_index = 4, control = 2, mask = 4,
      control_buffer = [7, 0x89, 0x2B], written = [], hash_table = Map.empty\<rparr>"
    using control_bit_order [where p = ?pa and j = 1]
    by simp
  have d: "flush_group ?pb = Inr \<lparr>input_index = 8, control = 0, mask = 1, control_buffer = [],
      written = [2, 1, 2, 3, 4, 5, 6, 7, 8], hash_table = Map.empty\<rparr>"
    using control_bit_order [where p = ?pb]
    by simp
  from a b c d show ?thesis by simp
qed

section \<open>Preset fallback of the MgData reader\<close>























section \<open>Payloads of the MgGra packer\<close>

lemma build_entries_verbatim:
  assumes "\<forall>(path, data) \<in> set files. data \<noteq> []"
  shows "\<exists>entries.
      build_entries lib dso files offset = Inr (entries, concat (map snd files))
      \<and> length entries = length files
      \<and> (\<forall>k<length files.
            esize (entries ! k) = length (snd (files ! k))
            \<and> dso + offset \<le> eoffset (entries ! k)
            \<and> take (esize (entries ! k))
                 (drop (eoffset (entries ! k) - (dso + offset)) (concat (map snd files)))
               = snd (files ! k))"
  using assms
proof (induction files arbitrary: offset)
  case Nil
  then show ?case by simp
next
  case (Cons f rest)
  obtain path data where f: "f = (path, data)" by (cases f)
  with Cons.prems have ne: "data \<noteq> []" and r: "\<forall>(path, data) \<in> set rest. data \<noteq> []"
    by auto
  from Cons.IH [OF r, of "offset + length data"] obtain entries where
    b: "build_entries lib dso rest (offset + length data) = Inr (entries, concat (map snd rest))"
    and l: "length entries = length rest"
    and e: "\<forall>k<length rest.
            esize (entries ! k) = length (snd (rest ! k))
            \<and> dso + (offset + length data) \<le> eoffset (entries ! k)
            \<and> take (esize (entries ! k))
                 (drop (eoffset (entries ! k) - (dso + (offset + length data)))
                    (concat (map snd rest)))
               = snd (rest ! k)"
    by blast
  let ?entry = "\<lparr>ename = str_upper lib (take 13 (stem_lower lib path)),
                  eoffset = dso + offset, esize = length data\<rparr>"
  have g: "get_byte data 0 = Inr (data ! 0)"
    using ne by (simp add: get_byte_def)
  have "build_entries lib dso (f # rest) offset
      = Inr (?entry # entries, concat (map snd (f # rest)))"
    by (simp add: f g b Let_def)
  moreover have "length (?entry # entries) = length (f # rest)"
    using l by simp
  moreover have "esize ((?entry # entries) ! k) = length (snd ((f # rest) ! k))
      \<and> dso + offset \<le> eoffset ((?entry # entries) ! k)
      \<and> take (esize ((?entry # entries) ! k))
           (drop (eoffset ((?entry # entries) ! k) - (dso + offset))
              (concat (map snd (f # rest))))
         = snd ((f # rest) ! k)" if k: "k < length (f # rest)" for k
  proof (cases k)
    case 0
    then show ?thesis by (simp add: f)
  next
    case (Suc j)
    with k have j: "j < length rest" by simp
    with e have "esize (entries ! j) = length (snd (rest ! j))
      \<and> dso + (offset + length data) \<le> eoffset (entries ! j)
      \<and> take (esize (entries ! j))
         (drop (eoffset (entries ! j) - (dso + (offset + length data))) (concat (map snd rest)))
       = snd (rest ! j)"
      by blast
    then have ej: "esize (entries ! j) = length (snd (rest ! j))"
      "dso + (offset + length data) \<le> eoffset (entries ! j)"
      "take (esize (entries ! j))
         (drop (eoffset (entries ! j) - (dso + (offset + length data))) (concat (map snd rest)))
       = snd (rest ! j)"
      by blast+
    from ej(2) have "eoffset (entries ! j) - (dso + offset)
        = length data + (eoffset (entries ! j) - (dso + (offset + length data)))"
      by simp
    then have "drop (eoffset (entries ! j) - (dso + offset)) (data @ concat (map snd rest))
        = drop (eoffset (entries ! j) - (dso + (offset + length data))) (concat (map snd rest))"
      by simp
    with ej Suc show ?thesis
      by (simp add: f)
  qed
  ultimately show ?case by blast
qed

text \<open>
  C10. The MgGra packer stores every payload verbatim: when all input files are non-empty,
  the data buffer is the concatenation of the files' bytes as they are, whatever their
  first byte; the index entry of each file gives its length as size and, from the start of
  the data section, the place where exactly its bytes lie; and an archive that
  \<open>pack_files\<close> returns is the index followed by that buffer.
\<close>

theorem mggra_payload_verbatim:
  assumes "\<forall>(path, data) \<in> set files. data \<noteq> []"
  shows "\<exists>entries.
      build_entries lib (8 + 0x15 * length files) files 0 = Inr (entries, concat (map snd files))
      \<and> length entries = length files
      \<and> (\<forall>k<length files.
            esize (entries ! k) = length (snd (files ! k))
            \<and> 8 + 0x15 * length files \<le> eoffset (entries ! k)
            \<and> take (esize (entries ! k))
                 (drop (eoffset (entries ! k) - (8 + 0x15 * length files))
                    (concat (map snd files)))
               = snd (files ! k))
      \<and> (\<forall>archive. pack_files lib files = Inr archive \<longrightarrow>
            (\<exists>index. index_section lib entries = Inr index
                     \<and> archive = index @ concat (map snd files)))"
proof -
  from build_entries_verbatim [OF assms, of lib "8 + 0x15 * length files" 0]
  obtain entries where
    b: "build_entries lib (8 + 0x15 * length files) files 0 = Inr (entries, concat (map snd files))"
    and l: "length entries = length files"
    and e: "\<forall>k<length files.
            esize (entries ! k) = length (snd (files ! k))
            \<and> 8 + 0x15 * length files \<le> eoffset (entries ! k)
            \<and> take (esize (entries ! k))
                 (drop (eoffset (entries ! k) - (8 + 0x15 * length files))
                    (concat (map snd files)))
               = snd (files ! k)"
    by auto
  have "\<exists>index. index_section lib entries = Inr index
      \<and> archive = index @ concat (map snd files)"
    if "pack_files lib files = Inr archive" for archive
    using that b by (auto simp: pack_files_def Let_def split: sum.splits)
  with b l e show ?thesis by blast
qed


text \<open>Two files with one-letter names, the first starting with \<open>0x78\<close>.\<close>

definition ascii_lib :: "(byte list, byte) str_lib" where
  "ascii_lib = \<lparr>stem_lower = (\<lambda>p. p), str_upper = (\<lambda>s. s), encode_utf8 = Some\<rparr>"

lemma pack_files_example:
  "pack_files ascii_lib [([0x41], [0x78, 0x01]), ([0x42], [0x59, 0x42, 0x00])]
   = Inr [2, 0, 0, 0, 13, 0, 0, 0,
          0x41, 0, 0x50, 0x52, 0x53, 0, 0, 0, 0, 0, 0, 0, 0, 50, 0, 0, 0, 2, 0, 0, 0,
          0x42, 0, 0x50, 0x52, 0x53, 0, 0, 0, 0, 0, 0, 0, 0, 52, 0, 0, 0, 3, 0, 0, 0,
          0x78, 0x01, 0x59, 0x42, 0x00]"
  by (simp add: pack_files_def ascii_lib_def get_byte_def index_section_def write_entry_def
      write_fixed_length_string_def py_prefix_def pack_I_def replicate_8 Let_def)

theorem mggra_payload_verbatim_witness:
  "pack_files ascii_lib [([0x41], [0x78, 0x01]), ([0x42], [0x59, 0x42, 0x00])]
   = Inr [2, 0, 0, 0, 13, 0, 0, 0,
          0x41, 0, 0x50, 0x52, 0x53, 0, 0, 0, 0, 0, 0, 0, 0, 50, 0, 0, 0, 2, 0, 0, 0,
          0x42, 0, 0x50, 0x52, 0x53, 0, 0, 0, 0, 0, 0, 0, 0, 52, 0, 0, 0, 3, 0, 0, 0,
          0x78, 0x01, 0x59, 0x42, 0x00]
   \<and> (\<exists>entries.
         build_entries ascii_lib 50 [([0x41], [0x78, 0x01]), ([0x42], [0x59, 0x42, 0x00])] 0
           = Inr (entries, [0x78, 0x01, 0x59, 0x42, 0x00])
         \<and> length entries = 2)
   \<and> pack_files ascii_lib [([0x41], [])] = Inl IndexError"
proof -
  have h: "\<forall>(path, data) \<in> set [([0x41 :: byte], [0x78, 0x01 :: byte]), ([0x42], [0x59, 0x42, 0x00])].
      data \<noteq> []"
    by simp
  have e: "pack_files ascii_lib [([0x41], [])] = Inl IndexError"
    by (simp add: pack_files_def get_byte_def Let_def)
  from mggra_payload_verbatim [OF h, of ascii_lib]
  have "\<exists>entries.
         build_entries ascii_lib 50 [([0x41], [0x78, 0x01]), ([0x42], [0x59, 0x42, 0x00])] 0
           = Inr (entries, [0x78, 0x01, 0x59, 0x42, 0x00])
         \<and> length entries = 2"
    by auto
  with pack_files_example e show ?thesis
    by simp
qed

end
